theory Spec2Isabelle
  imports Main "HOL-Library.Monad_Syntax"
begin

section \<open>Characters and the string primitives of the normalizer\<close>

text \<open>
  The normalizer of \<^verbatim>\<open>latex_to_docx_all_v2.py\<close> works on Python \<^verbatim>\<open>str\<close> values.
  A text is modelled as a \<^typ>\<open>string\<close>; a character is a code point in the range 0..255.
  The character classes below are those of Python on that range.
\<close>

abbreviation BSL :: char where
  "BSL \<equiv> CHR 0x5C"

definition is_linebreak :: "char \<Rightarrow> bool" where
  \<comment> \<open>the line boundaries of \<^verbatim>\<open>str.splitlines\<close>\<close>
  "is_linebreak c \<longleftrightarrow>
     c = CHR 0x0A \<or> c = CHR 0x0B \<or> c = CHR 0x0C \<or> c = CHR 0x0D \<or>
     c = CHR 0x1C \<or> c = CHR 0x1D \<or> c = CHR 0x1E \<or> c = CHR 0x85"

definition isspace :: "char \<Rightarrow> bool" where
  \<comment> \<open>\<^verbatim>\<open>str.isspace\<close> on one character; also the class \<^verbatim>\<open>\s\<close> of \<^verbatim>\<open>re\<close>\<close>
  "isspace c \<longleftrightarrow>
     c = CHR 0x09 \<or> c = CHR 0x0A \<or> c = CHR 0x0B \<or> c = CHR 0x0C \<or> c = CHR 0x0D \<or>
     c = CHR 0x1C \<or> c = CHR 0x1D \<or> c = CHR 0x1E \<or> c = CHR 0x1F \<or>
     c = CHR 0x20 \<or> c = CHR 0x85 \<or> c = CHR 0xA0"

fun splitlines_from :: "string \<Rightarrow> string \<Rightarrow> string list" where
  "splitlines_from cur [] = (if cur = [] then [] else [cur])"
| "splitlines_from cur (c # r) =
     (if is_linebreak c then
        cur # (if c = CHR 0x0D
               then (case r of
                       [] \<Rightarrow> splitlines_from [] r
                     | d # r' \<Rightarrow> if d = CHR 0x0A then splitlines_from [] r'
                                else splitlines_from [] r)
               else splitlines_from [] r)
      else splitlines_from (cur @ [c]) r)"

definition splitlines :: "string \<Rightarrow> string list" where
  \<comment> \<open>\<^verbatim>\<open>text.splitlines()\<close>: no line keeps its boundary, CR LF is one boundary,
      and a final boundary does not open an empty last line\<close>
  "splitlines text = splitlines_from [] text"

fun join :: "string \<Rightarrow> string list \<Rightarrow> string" where
  \<comment> \<open>\<^verbatim>\<open>sep.join(lines)\<close>\<close>
  "join sep [] = []"
| "join sep [x] = x"
| "join sep (x # y # ys) = x @ sep @ join sep (y # ys)"

definition comment_stripped :: "string \<Rightarrow> string" where
  \<comment> \<open>\<^verbatim>\<open>raw.split('%', 1)[0]\<close>\<close>
  "comment_stripped raw = takeWhile (\<lambda>c. c \<noteq> CHR ''%'') raw"


section \<open>Brace auditor: hotspot location\<close>

type_synonym brace_record = "nat \<times> nat \<times> string"

function scan_cols ::
  "nat \<Rightarrow> string \<Rightarrow> string \<Rightarrow> nat \<Rightarrow> brace_record list \<Rightarrow> brace_record list" where
  "scan_cols line_no raw line col stack =
     (if col < length line then
        (let ch = line ! col in
         if ch = CHR ''{'' then
           scan_cols line_no raw line (col + 1) (stack @ [(line_no, col + 1, raw)])
         else if ch = CHR ''}'' then
           (if stack \<noteq> [] then scan_cols line_no raw line (col + 1) (butlast stack)
            else scan_cols line_no raw line (col + 1) stack)
         else scan_cols line_no raw line (col + 1) stack)
      else stack)"
  by pat_completeness auto
termination
  by (relation "measure (\<lambda>(line_no, raw, line, col, stack). length line - col)") auto

declare scan_cols.simps [simp del]

fun scan_brace_lines :: "nat \<Rightarrow> string list \<Rightarrow> brace_record list \<Rightarrow> brace_record list" where
  "scan_brace_lines line_no [] stack = stack"
| "scan_brace_lines line_no (raw # rest) stack =
     scan_brace_lines (line_no + 1) rest
       (scan_cols line_no raw (comment_stripped raw) 0 stack)"

definition find_unmatched_open_braces :: "string \<Rightarrow> brace_record list" where
  "find_unmatched_open_braces text = scan_brace_lines 1 (splitlines text) []"

text \<open>
  A reading of "an opening brace never matched by a later closing brace" that does not
  use a stack: the braces of the text in text order, and for each opening brace the
  question whether the braces after it close it. In \<open>text_events\<close> each line is cut at its
  first percent sign, escaped or not, as the code cuts it; \<open>text_events_unescaped\<close> below
  cuts it at its first unescaped percent sign, as the specification says.
\<close>

datatype brace_event = Opening brace_record | Closing

fun line_events :: "nat \<Rightarrow> string \<Rightarrow> nat \<Rightarrow> string \<Rightarrow> brace_event list" where
  "line_events line_no raw col [] = []"
| "line_events line_no raw col (ch # rest) =
     (if ch = CHR ''{'' then [Opening (line_no, col + 1, raw)]
      else if ch = CHR ''}'' then [Closing] else [])
     @ line_events line_no raw (col + 1) rest"

fun text_events :: "nat \<Rightarrow> string list \<Rightarrow> brace_event list" where
  "text_events line_no [] = []"
| "text_events line_no (raw # rest) =
     line_events line_no raw 0 (comment_stripped raw) @ text_events (line_no + 1) rest"

definition brace_events :: "string \<Rightarrow> brace_event list" where
  "brace_events text = text_events 1 (splitlines text)"

fun closed_later :: "nat \<Rightarrow> brace_event list \<Rightarrow> bool" where
  \<comment> \<open>\<open>closed_later d es\<close>: with \<open>d\<close> braces opened in between, some closing brace of \<open>es\<close>
      closes the brace in question\<close>
  "closed_later d [] = False"
| "closed_later d (Opening r # es) = closed_later (Suc d) es"
| "closed_later d (Closing # es) = (case d of 0 \<Rightarrow> True | Suc d' \<Rightarrow> closed_later d' es)"

fun unmatched_openings :: "brace_event list \<Rightarrow> brace_record list" where
  "unmatched_openings [] = []"
| "unmatched_openings (Opening r # es) =
     (if closed_later 0 es then unmatched_openings es else r # unmatched_openings es)"
| "unmatched_openings (Closing # es) = unmatched_openings es"


text \<open>The effect of the braces on the stack, brace by brace.\<close>

fun apply_events :: "brace_event list \<Rightarrow> brace_record list \<Rightarrow> brace_record list" where
  "apply_events [] stack = stack"
| "apply_events (Opening r # es) stack = apply_events es (stack @ [r])"
| "apply_events (Closing # es) stack =
     apply_events es (if stack \<noteq> [] then butlast stack else stack)"

fun stray_closings :: "nat \<Rightarrow> brace_event list \<Rightarrow> nat" where
  \<comment> \<open>the closing braces of \<open>es\<close> that close none of the braces opened in \<open>es\<close>
      nor of the \<open>d\<close> opened just before\<close>
  "stray_closings d [] = 0"
| "stray_closings d (Opening r # es) = stray_closings (Suc d) es"
| "stray_closings d (Closing # es) =
     (case d of 0 \<Rightarrow> Suc (stray_closings 0 es) | Suc d' \<Rightarrow> stray_closings d' es)"


section \<open>Patterns shared by the stages\<close>

definition starts_with :: "string \<Rightarrow> string \<Rightarrow> bool" where
  \<comment> \<open>\<open>starts_with p s\<close> is \<^verbatim>\<open>s.startswith(p)\<close>\<close>
  "starts_with p s \<longleftrightarrow> take (length p) s = p"

fun contains :: "string \<Rightarrow> string \<Rightarrow> bool" where
  \<comment> \<open>\<^verbatim>\<open>re.search\<close> of a pattern that is a literal \<open>p\<close>\<close>
  "contains p [] = starts_with p []"
| "contains p (c # cs) = (starts_with p (c # cs) \<or> contains p cs)"

definition ascii_letter :: "char \<Rightarrow> bool" where
  \<comment> \<open>the class \<^verbatim>\<open>[A-Za-z]\<close>\<close>
  "ascii_letter c \<longleftrightarrow>
     (let n = (of_char c :: nat) in (65 \<le> n \<and> n \<le> 90) \<or> (97 \<le> n \<and> n \<le> 122))"

definition env_name_char :: "char \<Rightarrow> bool" where
  \<comment> \<open>the class \<^verbatim>\<open>[A-Za-z*]\<close>\<close>
  "env_name_char c \<longleftrightarrow> ascii_letter c \<or> c = CHR ''*''"

definition match_env :: "string \<Rightarrow> string \<Rightarrow> (string \<times> string) option" where
  \<comment> \<open>\<^verbatim>\<open>RE_ENV_BEGIN\<close> (\<open>kw\<close> is \<^verbatim>\<open>begin\<close>) and \<^verbatim>\<open>RE_ENV_END\<close> (\<open>kw\<close> is \<^verbatim>\<open>end\<close>)
      at the head of \<open>s\<close>: the name in group 1 and the text after the match\<close>
  "match_env kw s =
     (if starts_with (BSL # kw @ ''{'') s then
        (let r = drop (length (BSL # kw @ ''{'')) s;
             name = takeWhile env_name_char r;
             r' = dropWhile env_name_char r
         in if name \<noteq> [] \<and> starts_with ''}'' r' then Some (name, drop 1 r') else None)
      else None)"

function finditer_env :: "string \<Rightarrow> string \<Rightarrow> string list" where
  \<comment> \<open>the names \<^verbatim>\<open>m.group(1)\<close> of \<^verbatim>\<open>RE_ENV_BEGIN.finditer(ln)\<close>, in order\<close>
  "finditer_env kw s =
     (if s = [] then []
      else (case match_env kw s of
              Some (name, rest) \<Rightarrow> name # finditer_env kw rest
            | None \<Rightarrow> finditer_env kw (tl s)))"
  by pat_completeness auto
termination
proof (relation "measure (\<lambda>(kw, s). length s)")
  fix kw s :: string and x2 :: "string \<times> string" and name rest :: string
  assume "s \<noteq> []" "match_env kw s = Some x2" "(name, rest) = x2"
  then have r: "rest = drop 1 (dropWhile env_name_char (drop (length (BSL # kw @ ''{'')) s))"
    by (auto simp: match_env_def Let_def split: if_splits)
  have le: "length (dropWhile env_name_char (drop (length (BSL # kw @ ''{'')) s)) \<le> length s"
    using length_dropWhile_le [of env_name_char "drop (length (BSL # kw @ ''{'')) s"] by simp
  have pos: "0 < length s" using \<open>s \<noteq> []\<close> by simp
  have "length rest < length s" unfolding r length_drop using le pos by arith
  then show "((kw, rest), (kw, s)) \<in> measure (\<lambda>(kw, s). length s)" by simp
qed auto

declare finditer_env.simps [simp del]

definition is_end_document :: "string \<Rightarrow> bool" where
  \<comment> \<open>\<^verbatim>\<open>re.match(r'^\s*\\end\{document\}\s*$', ln)\<close>\<close>
  "is_end_document ln \<longleftrightarrow>
     (let r = dropWhile isspace ln
      in starts_with (BSL # ''end{document}'') r
         \<and> dropWhile isspace (drop (length (BSL # ''end{document}'')) r) = [])"

fun first_end_document :: "nat \<Rightarrow> string list \<Rightarrow> nat option" where
  \<comment> \<open>the loop over \<^verbatim>\<open>enumerate(lines)\<close> that stops at the first end-of-document line\<close>
  "first_end_document idx [] = None"
| "first_end_document idx (ln # rest) =
     (if is_end_document ln then Some idx else first_end_document (idx + 1) rest)"

definition end_doc_idx :: "string list \<Rightarrow> nat" where
  "end_doc_idx lines =
     (case first_end_document 0 lines of Some idx \<Rightarrow> idx | None \<Rightarrow> length lines)"

definition slice_insert :: "'a list \<Rightarrow> nat \<Rightarrow> 'a list \<Rightarrow> 'a list" where
  \<comment> \<open>\<^verbatim>\<open>lines[k:k] = inserts\<close>\<close>
  "slice_insert lines k inserts = take k lines @ inserts @ drop k lines"


section \<open>Environment balancer\<close>

definition BALANCE_ENVS :: "string list" where
  "BALANCE_ENVS =
     [''itemize'', ''enumerate'', ''description'', ''tabular'', ''tabular*'',
      ''center'', ''flushleft'', ''flushright'', ''quote'', ''quotation'', ''list'']"

type_synonym env_token = "string \<times> nat"

record balance_scan =
  stack :: "env_token list"
  unmatched_end :: "env_token list"

record balance_stats =
  inserted_missing_ends :: nat
  unmatched_end_count :: nat

definition is_commented :: "string \<Rightarrow> bool" where
  \<comment> \<open>\<^verbatim>\<open>ln.lstrip().startswith('%')\<close>\<close>
  "is_commented ln \<longleftrightarrow> starts_with ''%'' (dropWhile isspace ln)"

definition on_begin :: "nat \<Rightarrow> string \<Rightarrow> balance_scan \<Rightarrow> balance_scan" where
  "on_begin i env st =
     (if env \<in> set BALANCE_ENVS then st\<lparr>stack := stack st @ [(env, i)]\<rparr> else st)"

definition on_end :: "nat \<Rightarrow> string \<Rightarrow> balance_scan \<Rightarrow> balance_scan" where
  "on_end i env st =
     (if env \<in> set BALANCE_ENVS then
        (if stack st \<noteq> [] \<and> fst (last (stack st)) = env
         then st\<lparr>stack := butlast (stack st)\<rparr>
         else st\<lparr>unmatched_end := unmatched_end st @ [(env, i)]\<rparr>)
      else st)"

definition scan_env_line :: "nat \<Rightarrow> string \<Rightarrow> balance_scan \<Rightarrow> balance_scan" where
  "scan_env_line i ln st =
     (if is_commented ln then st
      else fold (on_end i) (finditer_env ''end'' ln)
             (fold (on_begin i) (finditer_env ''begin'' ln) st))"

fun scan_env_lines :: "nat \<Rightarrow> string list \<Rightarrow> balance_scan \<Rightarrow> balance_scan" where
  "scan_env_lines i [] st = st"
| "scan_env_lines i (ln # rest) st = scan_env_lines (i + 1) rest (scan_env_line i ln st)"

definition end_marker :: "env_token \<Rightarrow> string" where
  "end_marker tok = BSL # ''end{'' @ fst tok @ ''}''"

definition env_scan :: "string list \<Rightarrow> balance_scan" where
  \<comment> \<open>the scan of \<^verbatim>\<open>enumerate(lines, 1)\<close> from an empty stack\<close>
  "env_scan lines = scan_env_lines 1 lines \<lparr>stack = [], unmatched_end = []\<rparr>"

definition balance_envs :: "string \<Rightarrow> string \<times> balance_stats" where
  "balance_envs text =
     (let lines = splitlines text;
          st = env_scan lines;
          k = end_doc_idx lines;
          inserts = map end_marker (rev (stack st));
          lines' = (if inserts \<noteq> [] then slice_insert lines k inserts else lines)
      in (join ''\<newline>'' lines' @ ''\<newline>'',
          \<lparr>inserted_missing_ends = length inserts,
           unmatched_end_count = length (unmatched_end st)\<rparr>))"


section \<open>Brace auditor: imbalance count and automatic repair\<close>

definition rough_brace_imbalance :: "string \<Rightarrow> int" where
  "rough_brace_imbalance text =
     fold (\<lambda>raw total.
             (let s = comment_stripped raw
              in total + int (count_list s CHR ''{'') - int (count_list s CHR ''}'')))
          (splitlines text) 0"

definition auto_fix_braces :: "string \<Rightarrow> int \<Rightarrow> string" where
  "auto_fix_braces text how_many =
     (if how_many \<le> 0 then text
      else (let lines = splitlines text;
                k = end_doc_idx lines;
                lines' = slice_insert lines k (replicate (nat how_many) ''}'')
            in join ''\<newline>'' lines' @ ''\<newline>''))"


section \<open>List-item guarantor\<close>

definition word_char :: "char \<Rightarrow> bool" where
  \<comment> \<open>the class \<^verbatim>\<open>\w\<close> of \<^verbatim>\<open>re\<close> on \<^verbatim>\<open>str\<close>: alphanumeric or underscore\<close>
  "word_char c \<longleftrightarrow>
     (let n = (of_char c :: nat)
      in (48 \<le> n \<and> n \<le> 57) \<or> (65 \<le> n \<and> n \<le> 90) \<or> n = 95 \<or> (97 \<le> n \<and> n \<le> 122)
         \<or> n = 170 \<or> n = 178 \<or> n = 179 \<or> n = 181 \<or> n = 185 \<or> n = 186
         \<or> n = 188 \<or> n = 189 \<or> n = 190
         \<or> (192 \<le> n \<and> n \<le> 214) \<or> (216 \<le> n \<and> n \<le> 246) \<or> 248 \<le> n)"

definition word_boundary_after :: "string \<Rightarrow> bool" where
  \<comment> \<open>\<^verbatim>\<open>\b\<close> just after a word character, \<open>s\<close> being the text that follows\<close>
  "word_boundary_after s \<longleftrightarrow> (case s of [] \<Rightarrow> True | c # _ \<Rightarrow> \<not> word_char c)"

definition has_list_begin :: "string \<Rightarrow> bool" where
  \<comment> \<open>\<^verbatim>\<open>re.search(r'\\begin\{(itemize|enumerate)\}', ln)\<close>\<close>
  "has_list_begin ln \<longleftrightarrow>
     contains (BSL # ''begin{itemize}'') ln \<or> contains (BSL # ''begin{enumerate}'') ln"

definition has_list_end :: "string \<Rightarrow> bool" where
  \<comment> \<open>\<^verbatim>\<open>re.search(r'\\end\{(itemize|enumerate)\}', ln)\<close>\<close>
  "has_list_end ln \<longleftrightarrow>
     contains (BSL # ''end{itemize}'') ln \<or> contains (BSL # ''end{enumerate}'') ln"

definition is_item_line :: "string \<Rightarrow> bool" where
  \<comment> \<open>\<^verbatim>\<open>re.search(r'^\s*\\item\b', ln)\<close>\<close>
  "is_item_line ln \<longleftrightarrow>
     (let r = dropWhile isspace ln
      in starts_with (BSL # ''item'') r
         \<and> word_boundary_after (drop (length (BSL # ''item'')) r))"

function find_item :: "string list \<Rightarrow> nat \<Rightarrow> bool" where
  \<comment> \<open>the inner loop: the value of \<^verbatim>\<open>found\<close> when it ends\<close>
  "find_item lines j =
     (if j < length lines \<and> \<not> has_list_end (lines ! j) then
        (if is_item_line (lines ! j) then True else find_item lines (j + 1))
      else False)"
  by pat_completeness auto
termination
  by (relation "measure (\<lambda>(lines, j). length lines - j)") auto

declare find_item.simps [simp del]

definition list_insert :: "'a list \<Rightarrow> nat \<Rightarrow> 'a \<Rightarrow> 'a list" where
  \<comment> \<open>\<^verbatim>\<open>lines.insert(i, x)\<close>\<close>
  "list_insert xs i x = take i xs @ [x] @ drop i xs"

partial_function (option) ensure_loop :: "string list \<Rightarrow> nat \<Rightarrow> string list option" where
  \<comment> \<open>the outer loop; \<open>None\<close> stands for a loop that never ends\<close>
  "ensure_loop lines i =
     (if i < length lines then
        (if has_list_begin (lines ! i) then
           (if \<not> find_item lines (i + 1)
            then ensure_loop (list_insert lines (i + 1) (BSL # ''item'')) (i + 1 + 1)
            else ensure_loop lines (i + 1))
         else ensure_loop lines (i + 1))
      else Some lines)"

declare ensure_loop.simps [code]

definition ensure_list_items :: "string \<Rightarrow> string option" where
  "ensure_list_items text =
     map_option (\<lambda>lines. join ''\<newline>'' lines @ ''\<newline>'')
       (ensure_loop (splitlines text) 0)"


section \<open>Invocation rewriter\<close>

function str_replace :: "string \<Rightarrow> string \<Rightarrow> string \<Rightarrow> string" where
  \<comment> \<open>\<^verbatim>\<open>s.replace(old, new)\<close>\<close>
  "str_replace old new s =
     (if old = [] then new @ concat (map (\<lambda>c. c # new) s)
      else if s = [] then []
      else if starts_with old s then new @ str_replace old new (drop (length old) s)
      else hd s # str_replace old new (tl s))"
  by pat_completeness auto
termination
  by (relation "measure (\<lambda>(old, new, s). length s)") auto

declare str_replace.simps [simp del]

definition match_item :: "string \<Rightarrow> string \<Rightarrow> (string \<times> string) option" where
  \<comment> \<open>the pattern \<^verbatim>\<open>\\kw\{([^}]*)\}\<close> at the head of \<open>s\<close>: group 1 and the text after the match\<close>
  "match_item kw s =
     (if starts_with (BSL # kw @ ''{'') s then
        (let r = drop (length (BSL # kw @ ''{'')) s;
             text_item = takeWhile (\<lambda>c. c \<noteq> CHR ''}'') r;
             r' = dropWhile (\<lambda>c. c \<noteq> CHR ''}'') r
         in if starts_with ''}'' r' then Some (text_item, drop 1 r') else None)
      else None)"

definition repl_item :: "int \<Rightarrow> string \<Rightarrow> string \<times> int" where
  \<comment> \<open>\<^verbatim>\<open>_repl_item\<close>: the replacement text and the new value of the counter\<close>
  "repl_item itemize_depth text_item =
     (if itemize_depth = 0
      then (BSL # ''begin{itemize}'' @ ''\<newline>'' @ BSL # ''item '' @ text_item, itemize_depth + 1)
      else (BSL # ''item '' @ text_item, itemize_depth))"

function sub_item :: "string \<Rightarrow> string \<Rightarrow> int \<Rightarrow> string \<times> int" where
  \<comment> \<open>\<^verbatim>\<open>re.sub\<close> of the item pattern with \<^verbatim>\<open>_repl_item\<close>, left to right\<close>
  "sub_item kw s itemize_depth =
     (if s = [] then ([], itemize_depth)
      else (case match_item kw s of
              Some (text_item, rest) \<Rightarrow>
                (let (r, d) = repl_item itemize_depth text_item;
                     (out, d') = sub_item kw rest d
                 in (r @ out, d'))
            | None \<Rightarrow>
                (let (out, d') = sub_item kw (tl s) itemize_depth
                 in (hd s # out, d'))))"
  by pat_completeness auto
termination
proof (relation "measure (\<lambda>(kw, s, d). length s)")
  fix kw s :: string and x2 :: "string \<times> string" and text_item rest :: string
  assume "s \<noteq> []" "match_item kw s = Some x2" "(text_item, rest) = x2"
  then have r: "rest = drop 1 (dropWhile (\<lambda>c. c \<noteq> CHR ''}'') (drop (length (BSL # kw @ ''{'')) s))"
    by (auto simp: match_item_def Let_def split: if_splits)
  have le: "length (dropWhile (\<lambda>c. c \<noteq> CHR ''}'') (drop (length (BSL # kw @ ''{'')) s)) \<le> length s"
    using length_dropWhile_le [of "\<lambda>c. c \<noteq> CHR ''}''" "drop (length (BSL # kw @ ''{'')) s"] by simp
  have pos: "0 < length s" using \<open>s \<noteq> []\<close> by simp
  have "length rest < length s" unfolding r length_drop using le pos by arith
  then show "\<And>d x y. ((kw, rest, y), (kw, s, d)) \<in> measure (\<lambda>(kw, s, d). length s)" by simp
qed auto


declare sub_item.simps [simp del]

definition depth_on_begin :: "string \<Rightarrow> int \<Rightarrow> int" where
  "depth_on_begin name itemize_depth =
     (if name = ''itemize'' then itemize_depth + 1 else itemize_depth)"

definition depth_on_end :: "string \<Rightarrow> int \<Rightarrow> int" where
  "depth_on_end name itemize_depth =
     (if name = ''itemize'' \<and> itemize_depth > 0 then itemize_depth - 1 else itemize_depth)"

definition process_line :: "int \<Rightarrow> string \<Rightarrow> string \<times> int" where
  "process_line itemize_depth raw =
     (let ln = raw;
          ln = str_replace (BSL # ''resumeSubHeadingListStart'') (BSL # ''begin{itemize}'') ln;
          ln = str_replace (BSL # ''resumeSubHeadingListEnd'') (BSL # ''end{itemize}'') ln;
          ln = str_replace (BSL # ''resumeItemListStart'') (BSL # ''begin{itemize}'') ln;
          ln = str_replace (BSL # ''resumeItemListEnd'') (BSL # ''end{itemize}'') ln;
          d = fold depth_on_begin (finditer_env ''begin'' ln) itemize_depth;
          d = fold depth_on_end (finditer_env ''end'' ln) d;
          (ln, d) = sub_item ''resumeItem'' ln d;
          (ln, d) = sub_item ''resumeSubItem'' ln d
      in (ln, d))"

fun rewrite_lines :: "string list \<Rightarrow> int \<Rightarrow> string list \<times> int" where
  "rewrite_lines [] itemize_depth = ([], itemize_depth)"
| "rewrite_lines (raw # rest) itemize_depth =
     (let (ln, d) = process_line itemize_depth raw;
          (lines_out, d') = rewrite_lines rest d
      in (ln # lines_out, d'))"

fun split_first :: "string \<Rightarrow> string \<Rightarrow> (string \<times> string) option" where
  \<comment> \<open>the text before and after the first occurrence of \<open>d\<close>: a group \<^verbatim>\<open>(.*?)\<close> under
      \<^verbatim>\<open>re.S\<close> followed by the literal \<open>d\<close> ends at the first \<open>d\<close> whenever the match exists\<close>
  "split_first d [] = (if d = [] then Some ([], []) else None)"
| "split_first d (c # cs) =
     (if starts_with d (c # cs) then Some ([], drop (length d) (c # cs))
      else map_option (\<lambda>(a, b). (c # a, b)) (split_first d cs))"

definition match_subheading ::
  "string \<Rightarrow> ((string \<times> string \<times> string \<times> string) \<times> string) option" where
  \<comment> \<open>the four-argument sub-heading pattern at the head of \<open>s\<close>\<close>
  "match_subheading s =
     (if starts_with (BSL # ''resumeSubheading{'') s then
        do {
          (A, r1) \<leftarrow> split_first ''}{'' (drop (length (BSL # ''resumeSubheading{'')) s);
          (B, r2) \<leftarrow> split_first ''}{'' r1;
          (C, r3) \<leftarrow> split_first ''}{'' r2;
          (D, r4) \<leftarrow> split_first ''}'' r3;
          Some ((A, B, C, D), r4)
        }
      else None)"

definition subheading_repl :: "string \<times> string \<times> string \<times> string \<Rightarrow> string" where
  "subheading_repl m =
     (case m of (A, B, C, D) \<Rightarrow>
        BSL # ''item '' @ BSL # ''textbf{'' @ A @ ''}'' @ BSL # ''hfill'' @ BSL # ''textit{'' @ B
        @ ''}'' @ [BSL, BSL]
        @ BSL # ''textit{'' @ C @ ''}'' @ BSL # ''hfill'' @ BSL # ''textit{'' @ D @ ''}'')"

lemma starts_with_length: "starts_with p s \<Longrightarrow> length p \<le> length s"
proof -
  assume "starts_with p s"
  then have "length (take (length p) s) = length p"
    unfolding starts_with_def by (rule arg_cong)
  then show ?thesis by (simp add: min_def split: if_splits)
qed

lemma split_first_length:
  "split_first d s = Some (a, b) \<Longrightarrow> length b \<le> length s"
  by (induction s arbitrary: a) (auto split: if_splits)

lemma match_subheading_length:
  assumes "match_subheading s = Some (m, rest)"
  shows "length rest < length s"
proof -
  from assms obtain A r1 B r2 C r3 D where
    st: "starts_with (BSL # ''resumeSubheading{'') s" and
    1: "split_first ''}{'' (drop (length (BSL # ''resumeSubheading{'')) s) = Some (A, r1)" and
    2: "split_first ''}{'' r1 = Some (B, r2)" and
    3: "split_first ''}{'' r2 = Some (C, r3)" and
    4: "split_first ''}'' r3 = Some (D, rest)"
    by (auto simp: match_subheading_def split: if_splits Option.bind_splits)
  from st have "length (BSL # ''resumeSubheading{'') \<le> length s"
    by (rule starts_with_length)
  then have "length (drop (length (BSL # ''resumeSubheading{'')) s) < length s" by simp
  with split_first_length[OF 1] split_first_length[OF 2] split_first_length[OF 3]
    split_first_length[OF 4] show ?thesis by linarith
qed

function sub_subheading :: "string \<Rightarrow> string" where
  "sub_subheading s =
     (if s = [] then []
      else (case match_subheading s of
              Some (m, rest) \<Rightarrow> subheading_repl m @ sub_subheading rest
            | None \<Rightarrow> hd s # sub_subheading (tl s)))"
  by pat_completeness auto
termination
  by (relation "measure length") (auto simp: match_subheading_length)

declare sub_subheading.simps [simp del]

definition replace_invocations :: "string \<Rightarrow> string" where
  "replace_invocations text =
     (let (lines_out, d) = rewrite_lines (splitlines text) 0;
          text' = join ''\<newline>'' lines_out @ ''\<newline>''
      in sub_subheading text')"


section \<open>Definition stripper\<close>

datatype error = IndexError

definition isalpha :: "char \<Rightarrow> bool" where
  \<comment> \<open>\<^verbatim>\<open>str.isalpha\<close> on one character\<close>
  "isalpha c \<longleftrightarrow>
     (let n = (of_char c :: nat)
      in (65 \<le> n \<and> n \<le> 90) \<or> (97 \<le> n \<and> n \<le> 122)
         \<or> n = 170 \<or> n = 181 \<or> n = 186
         \<or> (192 \<le> n \<and> n \<le> 214) \<or> (216 \<le> n \<and> n \<le> 246) \<or> 248 \<le> n)"

definition CMD_KEYWORDS :: "string list" where
  "CMD_KEYWORDS = [''newcommand'', ''renewcommand'', ''providecommand'', ''def'']"

definition cmd_match :: "string \<Rightarrow> nat option" where
  \<comment> \<open>\<^verbatim>\<open>RE_CMD_START\<close> at the head of \<open>s\<close>: the length of the match\<close>
  "cmd_match s =
     (case s of
        [] \<Rightarrow> None
      | c # r \<Rightarrow>
          (if c = BSL then
             map_option (\<lambda>k. 1 + length k)
               (find (\<lambda>k. starts_with k r \<and> word_boundary_after (drop (length k) r))
                  CMD_KEYWORDS)
           else None))"

function cmd_search :: "string \<Rightarrow> nat \<Rightarrow> (nat \<times> nat) option" where
  \<comment> \<open>\<^verbatim>\<open>RE_CMD_START.search(src, i)\<close>: \<^verbatim>\<open>(m.start(), m.end())\<close>\<close>
  "cmd_search src i =
     (if i < length src then
        (case cmd_match (drop i src) of
           Some n \<Rightarrow> Some (i, i + n)
         | None \<Rightarrow> cmd_search src (i + 1))
      else None)"
  by pat_completeness auto
termination
  by (relation "measure (\<lambda>(src, i). length src - i)") auto

declare cmd_search.simps [simp del]

definition match_resume :: "string \<Rightarrow> bool" where
  \<comment> \<open>the pattern \<^verbatim>\<open>\\resume[A-Za-z]+\<close> at the head of \<open>s\<close>\<close>
  "match_resume s \<longleftrightarrow>
     starts_with (BSL # ''resume'') s
     \<and> (case drop (length (BSL # ''resume'')) s of [] \<Rightarrow> False | c # _ \<Rightarrow> ascii_letter c)"

fun search_resume :: "string \<Rightarrow> bool" where
  "search_resume [] = False"
| "search_resume (c # cs) = (match_resume (c # cs) \<or> search_resume cs)"

definition should_strip_definition :: "string \<Rightarrow> bool" where
  \<comment> \<open>\<^verbatim>\<open>_should_strip_definition\<close>: some pattern of \<^verbatim>\<open>MACRO_NAME_PATTERNS\<close> is found\<close>
  "should_strip_definition header_text \<longleftrightarrow>
     search_resume header_text
     \<or> contains (BSL # ''begin{itemize}'') header_text
     \<or> contains (BSL # ''end{itemize}'') header_text
     \<or> contains (BSL # ''labelitemi'') header_text"

definition slice :: "'a list \<Rightarrow> nat \<Rightarrow> nat \<Rightarrow> 'a list" where
  \<comment> \<open>\<^verbatim>\<open>src[a:b]\<close>\<close>
  "slice src a b = take (b - a) (drop a src)"

function skip_balanced_loop :: "string \<Rightarrow> char \<Rightarrow> char \<Rightarrow> nat \<Rightarrow> int \<Rightarrow> nat" where
  "skip_balanced_loop src open_ch close_ch j depth =
     (if j < length src then
        (let c = src ! j in
         if c = open_ch then skip_balanced_loop src open_ch close_ch (j + 1) (depth + 1)
         else if c = close_ch then
           (if depth - 1 = 0 then j + 1
            else skip_balanced_loop src open_ch close_ch (j + 1) (depth - 1))
         else skip_balanced_loop src open_ch close_ch (j + 1) depth)
      else j)"
  by pat_completeness auto
termination
  by (relation "measure (\<lambda>(src, open_ch, close_ch, j, depth). length src - j)") auto

declare skip_balanced_loop.simps [simp del]

definition skip_balanced :: "string \<Rightarrow> nat \<Rightarrow> char \<Rightarrow> char \<Rightarrow> nat" where
  "skip_balanced src idx open_ch close_ch =
     (if idx \<ge> length src \<or> src ! idx \<noteq> open_ch then idx
      else skip_balanced_loop src open_ch close_ch idx 0)"

function skip_while :: "(char \<Rightarrow> bool) \<Rightarrow> string \<Rightarrow> nat \<Rightarrow> nat" where
  \<comment> \<open>\<^verbatim>\<open>while i < len(src) and P(src[i]): i += 1\<close>\<close>
  "skip_while P src i = (if i < length src \<and> P (src ! i) then skip_while P src (i + 1) else i)"
  by pat_completeness auto
termination
  by (relation "measure (\<lambda>(P, src, i). length src - i)") auto

declare skip_while.simps [simp del]

definition find_char :: "char \<Rightarrow> string \<Rightarrow> nat \<Rightarrow> nat option" where
  \<comment> \<open>\<^verbatim>\<open>src.find(c, start)\<close>, \<open>None\<close> for \<^verbatim>\<open>-1\<close>\<close>
  "find_char c src start =
     (let r = dropWhile (\<lambda>x. x \<noteq> c) (drop start src)
      in if r = [] then None else Some (length src - length r))"

definition MARKER :: string where
  "MARKER = ''% (stripped macro definition)\<newline>''"

definition strip_span :: "string \<Rightarrow> nat \<Rightarrow> nat \<Rightarrow> string" where
  \<comment> \<open>\<^verbatim>\<open>src[:start_idx] + '% (stripped macro definition)\n' + src[end_idx:]\<close>\<close>
  "strip_span src start_idx end_idx = take start_idx src @ MARKER @ drop end_idx src"

definition line_end_from :: "string \<Rightarrow> nat \<Rightarrow> nat" where
  \<comment> \<open>\<^verbatim>\<open>j = src.find('\n', p); end_idx = (j + 1) if j != -1 else len(src)\<close>\<close>
  "line_end_from src p =
     (case find_char CHR 0x0A src p of Some j \<Rightarrow> j + 1 | None \<Rightarrow> length src)"

definition header_end :: "string \<Rightarrow> nat \<Rightarrow> nat" where
  \<comment> \<open>the index \<^verbatim>\<open>i\<close> after the name, the optional \<^verbatim>\<open>[..]\<close> and the white space around them\<close>
  "header_end src i0 =
     (let i = skip_while isspace src i0;
          i = (if i < length src \<and> src ! i = CHR ''{'' then
                 skip_balanced src i CHR ''{'' CHR ''}''
               else if i < length src \<and> src ! i = BSL then
                 (let i = i + 1;
                      i = skip_while (\<lambda>c. isalpha c \<or> c = CHR ''@'') src i;
                      i = skip_while (\<lambda>c. c \<in> set '' #0123456789'') src i
                  in i)
               else i);
          i = skip_while isspace src i;
          i = (if i < length src \<and> src ! i = CHR ''['' then
                 skip_balanced src i CHR ''['' CHR '']''
               else i);
          i = skip_while isspace src i
      in i)"

definition char_at :: "string \<Rightarrow> nat \<Rightarrow> error + char" where
  \<comment> \<open>\<^verbatim>\<open>src[i]\<close> for \<^verbatim>\<open>i >= 0\<close>\<close>
  "char_at src i = (if i < length src then Inr (src ! i) else Inl IndexError)"

definition strip_one_definition :: "string \<Rightarrow> nat \<Rightarrow> error + (string \<times> nat)" where
  "strip_one_definition src start_idx =
     (case cmd_match (drop start_idx src) of
        None \<Rightarrow> Inr (src, start_idx + 1)
      | Some n \<Rightarrow>
          (let i = start_idx + n;
               header_window = slice src start_idx (min (length src) (i + 400))
           in if \<not> should_strip_definition header_window then Inr (src, i)
              else
                (let i = header_end src i
                 in if i \<ge> length src then
                      Inr (strip_span src start_idx (line_end_from src start_idx), start_idx + 1)
                    else
                      (case char_at src i of
                         Inl e \<Rightarrow> Inl e
                       | Inr c \<Rightarrow>
                           (if c \<noteq> CHR ''{'' then
                              (case find_char CHR ''{'' src i of
                                 None \<Rightarrow>
                                   Inr (strip_span src start_idx (line_end_from src i),
                                        start_idx + 1)
                               | Some j \<Rightarrow>
                                   Inr (strip_span src start_idx
                                          (skip_balanced src j CHR ''{'' CHR ''}''),
                                        start_idx + 1))
                            else
                              Inr (strip_span src start_idx
                                     (skip_balanced src i CHR ''{'' CHR ''}''),
                                   start_idx + 1))))))"

partial_function (option) strip_loop :: "string \<Rightarrow> nat \<Rightarrow> (error + string) option" where
  "strip_loop src i =
     (case cmd_search src i of
        None \<Rightarrow> Some (Inr src)
      | Some (cmd_start, cmd_end) \<Rightarrow>
          (let header_window = slice src cmd_start (min (length src) (cmd_start + 500))
           in if should_strip_definition header_window then
                (case strip_one_definition src cmd_start of
                   Inl e \<Rightarrow> Some (Inl e)
                 | Inr (src', i') \<Rightarrow> strip_loop src' i')
              else strip_loop src cmd_end))"

declare strip_loop.simps [code]

definition strip_macro_definitions :: "string \<Rightarrow> (error + string) option" where
  "strip_macro_definitions text = strip_loop text 0"


section \<open>Guard rewriter\<close>

definition GUARD_REPL :: string where
  "GUARD_REPL = BSL # ''InputIfFileExists{glyphtounicode.tex}{}{} % guarded for Pandoc''"

definition GLYPH_INPUT :: string where
  "GLYPH_INPUT = BSL # ''input{glyphtounicode''"

definition glyph_closing :: "string \<Rightarrow> nat option" where
  \<comment> \<open>\<^verbatim>\<open>(\.tex)?\}\<close> at the head of \<open>t\<close>: the length of the match\<close>
  "glyph_closing t =
     (if starts_with ''.tex}'' t then Some (length ''.tex}'')
      else if starts_with ''}'' t then Some (length ''}'')
      else None)"

definition glyph_tail :: "string \<Rightarrow> nat option" where
  \<comment> \<open>\<^verbatim>\<open>\s*$\<close> under \<^verbatim>\<open>re.M\<close> at the head of \<open>u\<close>: the white space up to the end of the
      text, or else up to the last line feed of the white space\<close>
  "glyph_tail u =
     (let ws2 = takeWhile isspace u
      in if dropWhile isspace u = [] then Some (length ws2)
         else if CHR 0x0A \<in> set ws2 then
           Some (length ws2 - 1 - length (takeWhile (\<lambda>c. c \<noteq> CHR 0x0A) (rev ws2)))
         else None)"

definition glyph_match :: "string \<Rightarrow> nat option" where
  \<comment> \<open>the pattern \<^verbatim>\<open>\s*\\input\{glyphtounicode(\.tex)?\}\s*$\<close> at the head of \<open>s\<close>, a line
      start: the length of the match\<close>
  "glyph_match s =
     (let ws1 = takeWhile isspace s;
          q = dropWhile isspace s
      in if starts_with GLYPH_INPUT q then
           do {
             b \<leftarrow> glyph_closing (drop (length GLYPH_INPUT) q);
             k \<leftarrow> glyph_tail (drop b (drop (length GLYPH_INPUT) q));
             Some (length ws1 + length GLYPH_INPUT + b + k)
           }
         else None)"

lemma glyph_match_pos:
  assumes "glyph_match s = Some n"
  shows "0 < n"
proof -
  have pos: "0 < length GLYPH_INPUT" by (simp add: GLYPH_INPUT_def)
  from assms have "length GLYPH_INPUT \<le> n"
    by (auto simp: glyph_match_def Let_def split: if_splits Option.bind_splits)
  with pos show ?thesis by linarith
qed

function guard_sub :: "bool \<Rightarrow> string \<Rightarrow> string" where
  \<comment> \<open>\<^verbatim>\<open>re.sub\<close> of the pattern, left to right; \<open>bol\<close> says that \<^verbatim>\<open>^\<close> holds here\<close>
  "guard_sub bol s =
     (if s = [] then []
      else (case (if bol then glyph_match s else None) of
              Some n \<Rightarrow> GUARD_REPL @ guard_sub (last (take n s) = CHR 0x0A) (drop n s)
            | None \<Rightarrow> hd s # guard_sub (hd s = CHR 0x0A) (tl s)))"
  by pat_completeness auto
termination
proof (relation "measure (\<lambda>(bol, s). length s)")
  fix bol :: bool and s :: string and n :: nat
  assume s: "s \<noteq> []" and m: "(if bol then glyph_match s else None) = Some n"
  then have "glyph_match s = Some n" by (simp split: if_splits)
  then have "0 < n" by (rule glyph_match_pos)
  with s have "length (drop n s) < length s" by simp
  then show "((last (take n s) = CHR 0x0A, drop n s), bol, s) \<in> measure (\<lambda>(bol, s). length s)"
    by simp
qed auto

declare guard_sub.simps [simp del]

definition guard_glyphtounicode :: "string \<Rightarrow> string" where
  "guard_glyphtounicode text = guard_sub True text"


section \<open>The pipeline\<close>

definition normalize ::
  "string \<Rightarrow> bool \<Rightarrow> (error + (string \<times> balance_stats \<times> int \<times> brace_record list)) option" where
  \<comment> \<open>the stages as \<^verbatim>\<open>main\<close> chains them, \<open>auto_fix\<close> being \<^verbatim>\<open>args.auto_fix_braces\<close>:
      the normalized text, the stats, the final imbalance and the hotspots\<close>
  "normalize raw auto_fix =
     (let s = guard_glyphtounicode raw
      in case strip_macro_definitions s of
           None \<Rightarrow> None
         | Some (Inl e) \<Rightarrow> Some (Inl e)
         | Some (Inr s) \<Rightarrow>
             (let s = replace_invocations s;
                  (s, stats) = balance_envs s
              in case ensure_list_items s of
                   None \<Rightarrow> None
                 | Some s \<Rightarrow>
                     (let brace_delta = rough_brace_imbalance s;
                          hotspots = (if brace_delta > 0 then find_unmatched_open_braces s
                                      else []);
                          (s, brace_delta) =
                            (if auto_fix \<and> brace_delta > 0 then
                               (let s = auto_fix_braces s brace_delta
                                in (s, rough_brace_imbalance s))
                             else (s, brace_delta))
                      in Some (Inr (s, stats, brace_delta, hotspots)))))"


section \<open>Auxiliary notions for the properties\<close>

definition line_text :: "string \<Rightarrow> bool" where
  \<comment> \<open>a text without a line boundary\<close>
  "line_text l \<longleftrightarrow> (\<forall>c\<in>set l. \<not> is_linebreak c)"


text \<open>
  The list-item guarantor as the specification words it: the scan window of a list begin
  is the run of following lines before the first line with a list end, and a begin line
  whose window has no item line is followed by one empty item.
\<close>

fun window_has_item :: "string list \<Rightarrow> bool" where
  \<comment> \<open>the lines after a begin line: is there an item line before the first list end?\<close>
  "window_has_item [] = False"
| "window_has_item (l # ls) =
     (if has_list_end l then False else if is_item_line l then True else window_has_item ls)"

fun items_guaranteed :: "string list \<Rightarrow> string list" where
  "items_guaranteed [] = []"
| "items_guaranteed (l # ls) =
     (if has_list_begin l \<and> \<not> window_has_item ls then l # (BSL # ''item'') # items_guaranteed ls
      else l # items_guaranteed ls)"


definition tracked_names :: "env_token list \<Rightarrow> bool" where
  \<comment> \<open>every name on the stack is a name of \<^verbatim>\<open>BALANCE_ENVS\<close>\<close>
  "tracked_names toks \<longleftrightarrow> (\<forall>tok\<in>set toks. fst tok \<in> set BALANCE_ENVS)"

definition env_inert :: "string \<Rightarrow> bool" where
  \<comment> \<open>a line that is a comment, or that has neither a begin nor an end of a tracked
      environment: the scan of the balancer passes over it\<close>
  "env_inert ln \<longleftrightarrow>
     is_commented ln
     \<or> (filter (\<lambda>e. e \<in> set BALANCE_ENVS) (finditer_env ''begin'' ln) = []
        \<and> filter (\<lambda>e. e \<in> set BALANCE_ENVS) (finditer_env ''end'' ln) = [])"


text \<open>
  The count of the brace auditor as the specification words it, for comparison: on each
  line only the text before the first percent sign that no backslash escapes.
\<close>

fun uncommented :: "string \<Rightarrow> string" where
  \<comment> \<open>the text before the first unescaped percent sign; a backslash escapes the next character\<close>
  "uncommented [] = []"
| "uncommented (c # cs) =
     (if c = CHR ''%'' then []
      else if c = BSL then (case cs of [] \<Rightarrow> [c] | d # ds \<Rightarrow> c # d # uncommented ds)
      else c # uncommented cs)"

definition brace_excess_unescaped :: "string \<Rightarrow> int" where
  "brace_excess_unescaped s =
     (\<Sum>raw\<leftarrow>splitlines s. int (count_list (uncommented raw) CHR ''{'')
        - int (count_list (uncommented raw) CHR ''}''))"

fun text_events_unescaped :: "nat \<Rightarrow> string list \<Rightarrow> brace_event list" where
  \<comment> \<open>the braces before the first unescaped percent sign of each line, in text order\<close>
  "text_events_unescaped line_no [] = []"
| "text_events_unescaped line_no (raw # rest) =
     line_events line_no raw 0 (uncommented raw) @ text_events_unescaped (line_no + 1) rest"

definition brace_events_unescaped :: "string \<Rightarrow> brace_event list" where
  "brace_events_unescaped text = text_events_unescaped 1 (splitlines text)"

definition line_excess :: "string \<Rightarrow> int" where
  \<comment> \<open>what one line adds to \<^verbatim>\<open>total\<close> in \<open>rough_brace_imbalance\<close>\<close>
  "line_excess raw =
     int (count_list (comment_stripped raw) CHR ''{'')
     - int (count_list (comment_stripped raw) CHR ''}'')"


fun matches_in :: "string \<Rightarrow> nat" where
  \<comment> \<open>the number of positions of \<open>s\<close> at which \<^verbatim>\<open>RE_CMD_START\<close> matches: what the loop of
      \<open>strip_macro_definitions\<close> uses up\<close>
  "matches_in [] = 0"
| "matches_in (c # cs) = (if cmd_match (c # cs) \<noteq> None then 1 else 0) + matches_in cs"












text \<open>
  The item macros and the counter of the invocation rewriter, as the specification words
  them: a line has an occurrence of an item macro when the pattern of the macro matches
  somewhere in it; the list macros of a line are replaced first; the counter then goes up
  by the number of begins of \<^verbatim>\<open>itemize\<close> on the line and, when that leaves it positive, down
  by the number of ends of \<^verbatim>\<open>itemize\<close>, not below 0.
\<close>

fun has_item :: "string \<Rightarrow> string \<Rightarrow> bool" where
  "has_item kw [] = False"
| "has_item kw (c # cs) = (match_item kw (c # cs) \<noteq> None \<or> has_item kw cs)"

definition list_macros_replaced :: "string \<Rightarrow> string" where
  "list_macros_replaced raw =
     str_replace (BSL # ''resumeItemListEnd'') (BSL # ''end{itemize}'')
      (str_replace (BSL # ''resumeItemListStart'') (BSL # ''begin{itemize}'')
        (str_replace (BSL # ''resumeSubHeadingListEnd'') (BSL # ''end{itemize}'')
          (str_replace (BSL # ''resumeSubHeadingListStart'') (BSL # ''begin{itemize}'') raw)))"

definition depth_after_markers :: "int \<Rightarrow> string \<Rightarrow> int" where
  "depth_after_markers d ln =
     (let opened = d + int (count_list (finditer_env ''begin'' ln) ''itemize'')
      in if opened \<le> 0 then opened
         else max 0 (opened - int (count_list (finditer_env ''end'' ln) ''itemize'')))"


section \<open>Properties of the hotspot scan\<close>

lemma apply_events_append:
  "apply_events (es @ fs) stk = apply_events fs (apply_events es stk)"
  by (induction es stk rule: apply_events.induct) auto

lemma scan_cols_events:
  "scan_cols line_no raw line col stk =
     apply_events (line_events line_no raw col (drop col line)) stk"
proof (induction line_no raw line col stk rule: scan_cols.induct)
  case (1 line_no raw line col stk)
  show ?case
  proof (cases "col < length line")
    case False
    then show ?thesis by (simp add: scan_cols.simps)
  next
    case True
    then have d: "drop col line = line ! col # drop (Suc col) line"
      by (simp add: Cons_nth_drop_Suc)
    show ?thesis
      using True 1 by (subst scan_cols.simps) (simp add: d Let_def)
  qed
qed

lemma scan_brace_lines_events:
  "scan_brace_lines line_no ls stk = apply_events (text_events line_no ls) stk"
  by (induction ls arbitrary: line_no stk)
     (simp_all add: apply_events_append scan_cols_events)

lemma stray_closings_Suc: "stray_closings (Suc d) es = stray_closings d es - 1"
  by (induction es arbitrary: d rule: unmatched_openings.induct) (auto split: nat.splits)

lemma closed_later_stray: "closed_later d es \<longleftrightarrow> 0 < stray_closings d es"
  by (induction d es rule: closed_later.induct) (auto split: nat.splits)

lemma apply_events_unmatched:
  "apply_events es stk =
     take (length stk - stray_closings 0 es) stk @ unmatched_openings es"
proof (induction es arbitrary: stk rule: unmatched_openings.induct)
  case 1
  then show ?case by simp
next
  case (2 r es)
  show ?case
    using 2[of "stk @ [r]"] by (auto simp: closed_later_stray stray_closings_Suc)
next
  case (3 es)
  show ?case
    using 3[of "if stk \<noteq> [] then butlast stk else stk"]
    by (auto simp: butlast_conv_take take_Suc_conv_app_nth)
qed

text \<open>
  C6, as the code has it. The hotspot scan cuts each line at its first percent sign,
  escaped or not, where the specification leaves out only the text after an unescaped
  one. In the one-line text \<^verbatim>\<open>\%{\<close> the brace at column 3 is never closed and stands before
  any unescaped percent sign, and the scan returns nothing; in \<^verbatim>\<open>{\%}\<close> the opening brace is
  closed by the brace after the escaped percent sign, and the scan reports it at column 1.
\<close>

theorem find_unmatched_open_braces_escaped_percent:
  "unmatched_openings (brace_events_unescaped (BSL # ''%{'')) = [(1, 3, BSL # ''%{'')]
   \<and> find_unmatched_open_braces (BSL # ''%{'') = []
   \<and> unmatched_openings (brace_events_unescaped (''{'' @ BSL # ''%}'')) = []
   \<and> find_unmatched_open_braces (''{'' @ BSL # ''%}'') = [(1, 1, ''{'' @ BSL # ''%}'')]"
  by code_simp

text \<open>
  C6, amended. For every text, \<open>find_unmatched_open_braces\<close> returns exactly the records
  (line, column, line text) of the opening braces that no later closing brace closes,
  oldest first, where on each line only the characters before its first percent sign,
  escaped or not, are braces of the text; a closing brace met with an empty stack leaves
  the stack empty and the scan goes on; and for the one-line text \<^verbatim>\<open>a{b{c}\<close> the result is
  the single record of line 1, column 2.
\<close>

theorem find_unmatched_open_braces_exact:
  "find_unmatched_open_braces text = unmatched_openings (brace_events text)
   \<and> (col < length line \<and> line ! col = CHR ''}'' \<longrightarrow>
        scan_cols line_no raw line col [] = scan_cols line_no raw line (col + 1) [])
   \<and> find_unmatched_open_braces ''a{b{c}'' = [(1, 2, ''a{b{c}'')]"
proof -
  have a: "find_unmatched_open_braces text = unmatched_openings (brace_events text)"
    by (simp add: find_unmatched_open_braces_def brace_events_def
        scan_brace_lines_events apply_events_unmatched)
  have b: "col < length line \<and> line ! col = CHR ''}'' \<longrightarrow>
        scan_cols line_no raw line col [] = scan_cols line_no raw line (col + 1) []"
    by (subst scan_cols.simps) simp
  have c: "find_unmatched_open_braces ''a{b{c}'' = [(1, 2, ''a{b{c}'')]"
    by code_simp
  from a b c show ?thesis by blast
qed

theorem find_unmatched_open_braces_exact_witness:
  "find_unmatched_open_braces ''x{y}}{z%{'' = [(1, 6, ''x{y}}{z%{'')]
   \<and> unmatched_openings (brace_events ''x{y}}{z%{'') = [(1, 6, ''x{y}}{z%{'')]
   \<and> scan_cols 1 ''}{'' ''}{'' 0 [] = scan_cols 1 ''}{'' ''}{'' 1 []"
proof -
  have e: "unmatched_openings (brace_events ''x{y}}{z%{'') = [(1, 6, ''x{y}}{z%{'')]"
    by code_simp
  show ?thesis
    using find_unmatched_open_braces_exact [of "''x{y}}{z%{''" 0 "''}{''" 1 "''}{''"] e
    by simp
qed


section \<open>Lines and line boundaries\<close>

lemma splitlines_from_break:
  assumes "is_linebreak c"
  shows "\<exists>r'. length r' \<le> length r \<and> splitlines_from cur (c # r) = cur # splitlines_from [] r'"
proof (cases "c = CHR 0x0D \<and> (\<exists>r'. r = CHR 0x0A # r')")
  case True
  then obtain r' where "r = CHR 0x0A # r'" by blast
  with assms True have "splitlines_from cur (c # r) = cur # splitlines_from [] r'" by simp
  moreover have "length r' \<le> length r" using \<open>r = CHR 0x0A # r'\<close> by simp
  ultimately show ?thesis by blast
next
  case False
  with assms have "splitlines_from cur (c # r) = cur # splitlines_from [] r"
    by (cases r) auto
  then show ?thesis by blast
qed

lemma splitlines_from_line_text:
  "line_text cur \<Longrightarrow> l \<in> set (splitlines_from cur s) \<Longrightarrow> line_text l"
proof (induction "length s" arbitrary: s cur rule: less_induct)
  case less
  show ?case
  proof (cases s)
    case Nil
    with less.prems show ?thesis by (simp split: if_splits)
  next
    case (Cons c r)
    show ?thesis
    proof (cases "is_linebreak c")
      case True
      from splitlines_from_break [OF True, of r cur] obtain r' where
        r': "length r' \<le> length r" "splitlines_from cur (c # r) = cur # splitlines_from [] r'"
        by blast
      from less.prems r' Cons have "l = cur \<or> l \<in> set (splitlines_from [] r')" by simp
      moreover have "line_text []" by (simp add: line_text_def)
      moreover have "length r' < length s" using r' Cons by simp
      ultimately show ?thesis using less.hyps [of r' "[]"] less.prems(1) by blast
    next
      case False
      with less.prems(1) have "line_text (cur @ [c])" by (simp add: line_text_def)
      moreover from False less.prems(2) Cons have "l \<in> set (splitlines_from (cur @ [c]) r)"
        by simp
      moreover have "length r < length s" using Cons by simp
      ultimately show ?thesis using less.hyps [of r "cur @ [c]"] by blast
    qed
  qed
qed

lemma splitlines_line_text: "l \<in> set (splitlines text) \<Longrightarrow> line_text l"
  using splitlines_from_line_text [of "[]" l "text"] by (simp add: splitlines_def line_text_def)

lemma splitlines_from_line:
  "line_text l \<Longrightarrow>
   splitlines_from cur (l @ CHR 0x0A # rest) = (cur @ l) # splitlines_from [] rest"
  by (induction l arbitrary: cur) (simp_all add: line_text_def is_linebreak_def)

lemma splitlines_concat:
  "\<forall>l\<in>set ls. line_text l \<Longrightarrow>
   splitlines_from [] (concat (map (\<lambda>l. l @ [CHR 0x0A]) ls)) = ls"
  by (induction ls) (simp_all add: splitlines_from_line)

lemma join_newline:
  "ls \<noteq> [] \<Longrightarrow> join [CHR 0x0A] ls @ [CHR 0x0A] = concat (map (\<lambda>l. l @ [CHR 0x0A]) ls)"
  by (induction ls rule: join.induct [where ?a0.0 = "[CHR 0x0A]"]) simp_all

lemma splitlines_join:
  "ls \<noteq> [] \<Longrightarrow> \<forall>l\<in>set ls. line_text l \<Longrightarrow>
   splitlines (join ''\<newline>'' ls @ ''\<newline>'') = ls"
  by (simp add: splitlines_def join_newline splitlines_concat)

lemma splitlines_from_nonempty: "cur \<noteq> [] \<or> s \<noteq> [] \<Longrightarrow> splitlines_from cur s \<noteq> []"
  by (induction s arbitrary: cur) simp_all

lemma splitlines_empty: "splitlines s = [] \<Longrightarrow> s = []"
  using splitlines_from_nonempty [of "[]" s] by (auto simp: splitlines_def)

lemma splitlines_Nil: "splitlines [] = []"
  by (simp add: splitlines_def)

lemma last_join_newline: "last (join sep ls @ ''\<newline>'') = CHR 0x0A"
  by simp


section \<open>The sub-heading substitution keeps the final line feed\<close>

lemma split_first_eq: "split_first d s = Some (a, b) \<Longrightarrow> s = a @ d @ b"
proof (induction s arbitrary: a)
  case Nil
  then show ?case by (simp split: if_splits)
next
  case (Cons c cs)
  show ?case
  proof (cases "starts_with d (c # cs)")
    case True
    with Cons.prems have ab: "a = []" "b = drop (length d) (c # cs)" by simp_all
    from True have t: "take (length d) (c # cs) = d" by (simp add: starts_with_def)
    have "take (length d) (c # cs) @ drop (length d) (c # cs) = c # cs"
      by (rule append_take_drop_id)
    then have "d @ drop (length d) (c # cs) = c # cs" by (simp only: t)
    then show ?thesis by (simp only: ab append_Nil)
  next
    case False
    with Cons.prems obtain a' where "split_first d cs = Some (a', b)" "a = c # a'"
      by (auto split: option.splits)
    with Cons.IH show ?thesis by simp
  qed
qed



lemma match_subheading_parts:
  assumes "match_subheading s = Some (m, rest)"
  shows "\<exists>A r1 B r2 C r3 D.
    split_first ''}{'' (drop (length (BSL # ''resumeSubheading{'')) s) = Some (A, r1) \<and>
    split_first ''}{'' r1 = Some (B, r2) \<and>
    split_first ''}{'' r2 = Some (C, r3) \<and>
    split_first ''}'' r3 = Some (D, rest)"
  using assms
  by (auto simp: match_subheading_def split: if_splits Option.bind_splits)


lemma match_subheading_suffix:
  assumes "match_subheading s = Some (m, rest)"
  shows "\<exists>pre. s = pre @ CHR ''}'' # rest"
proof -
  from match_subheading_parts [OF assms] obtain A r1 B r2 C r3 D where
    1: "split_first ''}{'' (drop (length (BSL # ''resumeSubheading{'')) s) = Some (A, r1)" and
    2: "split_first ''}{'' r1 = Some (B, r2)" and
    3: "split_first ''}{'' r2 = Some (C, r3)" and
    4: "split_first ''}'' r3 = Some (D, rest)"
    by blast
  define n where "n = length (BSL # ''resumeSubheading{'')"
  have a: "\<exists>p. s = p @ r1"
  proof -
    have "take n s @ drop n s = s" by (rule append_take_drop_id)
    moreover have "drop n s = A @ ''}{'' @ r1" unfolding n_def by (rule split_first_eq [OF 1])
    ultimately have "(take n s @ A @ ''}{'') @ r1 = s" by simp
    then have "s = (take n s @ A @ ''}{'') @ r1" by (rule sym)
    then show ?thesis by (rule exI)
  qed
  have b: "\<exists>p. r1 = p @ r2"
    using split_first_eq [OF 2] by (intro exI [of _ "B @ ''}{''"]) simp
  have c: "\<exists>p. r2 = p @ r3"
    using split_first_eq [OF 3] by (intro exI [of _ "C @ ''}{''"]) simp
  have d: "r3 = D @ CHR ''}'' # rest"
    using split_first_eq [OF 4] by simp
  from a b c obtain p1 p2 p3 where "s = p1 @ r1" "r1 = p2 @ r2" "r2 = p3 @ r3" by blast
  with d have "s = (p1 @ p2 @ p3 @ D) @ CHR ''}'' # rest" by simp
  then show ?thesis by (rule exI)
qed

lemma sub_subheading_last:
  "s \<noteq> [] \<Longrightarrow> last s = CHR 0x0A \<Longrightarrow>
   sub_subheading s \<noteq> [] \<and> last (sub_subheading s) = CHR 0x0A"
proof (induction s rule: sub_subheading.induct)
  case (1 s)
  show ?case
  proof (cases "match_subheading s")
    case None
    show ?thesis
    proof (cases "tl s = []")
      case True
      with "1.prems" have "s = [CHR 0x0A]" by (cases s) auto
      moreover have "sub_subheading [] = []" by (simp add: sub_subheading.simps)
      ultimately show ?thesis using None by (simp add: sub_subheading.simps)
    next
      case False
      with "1.prems" have l: "last (tl s) = CHR 0x0A" by (cases s) auto
      from "1.IH"(1) [OF "1.prems"(1) None False l]
      show ?thesis using None "1.prems"(1) by (subst (1 2) sub_subheading.simps) simp
    qed
  next
    case (Some p)
    obtain m rest where p: "p = (m, rest)" by (cases p)
    from match_subheading_suffix [of s m rest] Some p obtain pre where
      s: "s = pre @ CHR ''}'' # rest" by auto
    have rest: "rest \<noteq> []" using s "1.prems"(2) by (cases "rest = []") auto
    with s "1.prems"(2) have l: "last rest = CHR 0x0A" by simp
    from "1.IH"(2) [OF "1.prems"(1) Some p [symmetric] rest l]
    show ?thesis using Some p "1.prems"(1) by (subst (1 2) sub_subheading.simps) simp
  qed
qed

lemma replace_invocations_last:
  "replace_invocations s \<noteq> [] \<and> last (replace_invocations s) = CHR 0x0A"
  unfolding replace_invocations_def Let_def
  by (simp add: sub_subheading_last split: prod.splits)


section \<open>Properties of the list-item guarantor\<close>

lemma find_item_window: "find_item lines j = window_has_item (drop j lines)"
proof (induction lines j rule: find_item.induct)
  case (1 lines j)
  show ?case
  proof (cases "j < length lines")
    case False
    then show ?thesis by (simp add: find_item.simps)
  next
    case True
    then have d: "drop j lines = lines ! j # drop (Suc j) lines"
      by (simp add: Cons_nth_drop_Suc)
    show ?thesis
      using True 1 by (subst find_item.simps) (simp add: d)
  qed
qed

lemma ensure_loop_result:
  "i \<le> length lines \<Longrightarrow>
   ensure_loop lines i = Some (take i lines @ items_guaranteed (drop i lines))"
proof (induction "length lines - i" arbitrary: lines i rule: less_induct)
  case less
  show ?case
  proof (cases "i < length lines")
    case False
    with less.prems show ?thesis by (subst ensure_loop.simps) simp
  next
    case True
    then have d: "drop i lines = lines ! i # drop (Suc i) lines"
      by (simp add: Cons_nth_drop_Suc)
    have t: "take (Suc i) lines = take i lines @ [lines ! i]"
      using True by (simp add: take_Suc_conv_app_nth)
    show ?thesis
    proof (cases "has_list_begin (lines ! i) \<and> \<not> find_item lines (i + 1)")
      case False
      have "ensure_loop lines i = ensure_loop lines (i + 1)"
        using True False by (subst ensure_loop.simps) auto
      also have "\<dots> = Some (take (i + 1) lines @ items_guaranteed (drop (i + 1) lines))"
        using True by (intro less.hyps) auto
      finally show ?thesis using False by (simp add: d t find_item_window)
    next
      case ins: True
      define lines' where "lines' = list_insert lines (i + 1) (BSL # ''item'')"
      have len: "length lines' = length lines + 1"
        using True by (simp add: lines'_def list_insert_def)
      have tk: "take (Suc (Suc i)) lines' = take i lines @ [lines ! i, BSL # ''item'']"
        using True by (simp add: lines'_def list_insert_def t)
      have dr: "drop (Suc (Suc i)) lines' = drop (Suc i) lines"
        using True by (simp add: lines'_def list_insert_def)
      have "ensure_loop lines i = ensure_loop lines' (i + 1 + 1)"
        using True ins unfolding lines'_def by (subst ensure_loop.simps) simp
      also have "\<dots> = Some (take (i + 1 + 1) lines' @ items_guaranteed (drop (i + 1 + 1) lines'))"
        using True len by (intro less.hyps) auto
      finally show ?thesis using ins by (simp add: tk dr d find_item_window)
    qed
  qed
qed

lemma ensure_list_items_result:
  "ensure_list_items s = Some (join ''\<newline>'' (items_guaranteed (splitlines s)) @ ''\<newline>'')"
  by (simp add: ensure_list_items_def ensure_loop_result)


section \<open>Properties of the environment balancer\<close>

lemma scan_env_lines_append:
  "scan_env_lines i (xs @ ys) st = scan_env_lines (i + length xs) ys (scan_env_lines i xs st)"
  by (induction xs arbitrary: i st) simp_all

lemma on_begin_tracked: "tracked_names (stack st) \<Longrightarrow> tracked_names (stack (on_begin i env st))"
  by (simp add: on_begin_def tracked_names_def)

lemma on_end_tracked: "tracked_names (stack st) \<Longrightarrow> tracked_names (stack (on_end i env st))"
  by (auto simp: on_end_def tracked_names_def dest: in_set_butlastD)

lemma fold_on_begin_tracked:
  "tracked_names (stack st) \<Longrightarrow> tracked_names (stack (fold (on_begin i) envs st))"
  by (induction envs arbitrary: st) (simp_all add: on_begin_tracked)

lemma fold_on_end_tracked:
  "tracked_names (stack st) \<Longrightarrow> tracked_names (stack (fold (on_end i) envs st))"
  by (induction envs arbitrary: st) (simp_all add: on_end_tracked)

lemma scan_env_line_tracked:
  "tracked_names (stack st) \<Longrightarrow> tracked_names (stack (scan_env_line i ln st))"
  by (simp add: scan_env_line_def fold_on_begin_tracked fold_on_end_tracked)

lemma scan_env_lines_tracked:
  "tracked_names (stack st) \<Longrightarrow> tracked_names (stack (scan_env_lines i ls st))"
  by (induction ls arbitrary: i st) (simp_all add: scan_env_line_tracked)

lemma first_end_document_Some:
  "first_end_document idx ls = Some k \<Longrightarrow>
   idx \<le> k \<and> k - idx < length ls \<and> is_end_document (ls ! (k - idx))
   \<and> (\<forall>j < k - idx. \<not> is_end_document (ls ! j))"
proof (induction ls arbitrary: idx)
  case Nil
  then show ?case by simp
next
  case (Cons ln rest)
  show ?case
  proof (cases "is_end_document ln")
    case True
    with Cons.prems show ?thesis by simp
  next
    case False
    with Cons.prems have "first_end_document (idx + 1) rest = Some k" by simp
    from Cons.IH [OF this] have
      a: "idx + 1 \<le> k" and b: "k - (idx + 1) < length rest" and
      c: "is_end_document (rest ! (k - (idx + 1)))" and
      d: "\<forall>j < k - (idx + 1). \<not> is_end_document (rest ! j)" by auto
    from a have e: "k - idx = Suc (k - (idx + 1))" by simp
    have "\<forall>j < k - idx. \<not> is_end_document ((ln # rest) ! j)"
    proof (intro allI impI)
      fix j assume "j < k - idx"
      then show "\<not> is_end_document ((ln # rest) ! j)"
        using False d e by (cases j) auto
    qed
    with a b c e show ?thesis by simp
  qed
qed

lemma first_end_document_None:
  "first_end_document idx ls = None \<Longrightarrow> \<forall>ln\<in>set ls. \<not> is_end_document ln"
  by (induction ls arbitrary: idx) (auto split: if_splits)

lemma end_doc_idx_spec:
  "end_doc_idx ls \<le> length ls
   \<and> (end_doc_idx ls < length ls \<longrightarrow> is_end_document (ls ! end_doc_idx ls))
   \<and> (\<forall>j < end_doc_idx ls. \<not> is_end_document (ls ! j))"
proof (cases "first_end_document 0 ls")
  case None
  from first_end_document_None [OF None] show ?thesis
    by (simp add: end_doc_idx_def None)
next
  case (Some k)
  from first_end_document_Some [OF Some] show ?thesis
    by (simp add: end_doc_idx_def Some)
qed


lemma fold_on_begin_inert:
  "filter (\<lambda>e. e \<in> set BALANCE_ENVS) envs = [] \<Longrightarrow> fold (on_begin i) envs st = st"
  by (induction envs arbitrary: st) (auto simp: on_begin_def split: if_splits)

lemma fold_on_end_inert:
  "filter (\<lambda>e. e \<in> set BALANCE_ENVS) envs = [] \<Longrightarrow> fold (on_end i) envs st = st"
  by (induction envs arbitrary: st) (auto simp: on_end_def split: if_splits)

lemma scan_env_line_inert: "env_inert ln \<Longrightarrow> scan_env_line i ln st = st"
  by (auto simp: env_inert_def scan_env_line_def fold_on_begin_inert fold_on_end_inert)

lemma scan_env_lines_inert:
  "\<forall>ln\<in>set ls. env_inert ln \<Longrightarrow> scan_env_lines i ls st = st"
  by (induction ls arbitrary: i) (simp_all add: scan_env_line_inert)

lemma end_marker_name: "end_marker (e, i) = end_marker (e, 0)"
  by (simp add: end_marker_def)

lemma closer_facts_all:
  "list_all (\<lambda>e. line_text (end_marker (e, 0))
                \<and> \<not> is_commented (end_marker (e, 0))
                \<and> finditer_env ''begin'' (end_marker (e, 0)) = []
                \<and> finditer_env ''end'' (end_marker (e, 0)) = [e]
                \<and> \<not> is_end_document (end_marker (e, 0))) BALANCE_ENVS"
  by code_simp

lemma closer_facts:
  assumes "fst tok \<in> set BALANCE_ENVS"
  shows "line_text (end_marker tok)" "\<not> is_commented (end_marker tok)"
    "finditer_env ''begin'' (end_marker tok) = []"
    "finditer_env ''end'' (end_marker tok) = [fst tok]"
    "\<not> is_end_document (end_marker tok)"
proof -
  obtain e i where tok: "tok = (e, i)" by (cases tok)
  with assms have "e \<in> set BALANCE_ENVS" by simp
  with closer_facts_all have
    "line_text (end_marker (e, 0))
     \<and> \<not> is_commented (end_marker (e, 0))
     \<and> finditer_env ''begin'' (end_marker (e, 0)) = []
     \<and> finditer_env ''end'' (end_marker (e, 0)) = [e]
     \<and> \<not> is_end_document (end_marker (e, 0))"
    unfolding list_all_iff by blast
  then show "line_text (end_marker tok)" "\<not> is_commented (end_marker tok)"
    "finditer_env ''begin'' (end_marker tok) = []"
    "finditer_env ''end'' (end_marker tok) = [fst tok]"
    "\<not> is_end_document (end_marker tok)"
    unfolding tok end_marker_name [of e i] by simp_all
qed

lemma scan_closer:
  assumes "fst tok \<in> set BALANCE_ENVS"
  shows "scan_env_line i (end_marker tok) \<lparr>stack = P @ [tok], unmatched_end = U\<rparr>
         = \<lparr>stack = P, unmatched_end = U\<rparr>"
  using assms by (simp add: scan_env_line_def closer_facts on_end_def)

lemma scan_closers:
  "tracked_names S \<Longrightarrow>
   scan_env_lines i (map end_marker (rev S)) \<lparr>stack = P @ S, unmatched_end = U\<rparr>
   = \<lparr>stack = P, unmatched_end = U\<rparr>"
proof (induction S arbitrary: i rule: rev_induct)
  case Nil
  then show ?case by simp
next
  case (snoc tok S)
  from snoc.prems have t: "fst tok \<in> set BALANCE_ENVS" and S: "tracked_names S"
    by (simp_all add: tracked_names_def)
  have "scan_env_line i (end_marker tok) \<lparr>stack = (P @ S) @ [tok], unmatched_end = U\<rparr>
         = \<lparr>stack = P @ S, unmatched_end = U\<rparr>"
    using t by (rule scan_closer)
  with snoc.IH [OF S] show ?case by simp
qed

lemma closers_line_text:
  "tracked_names S \<Longrightarrow> \<forall>l\<in>set (map end_marker (rev S)). line_text l"
  by (auto simp: tracked_names_def closer_facts)

lemma env_scan_tracked: "tracked_names (stack (env_scan ls))"
  unfolding env_scan_def by (rule scan_env_lines_tracked) (simp add: tracked_names_def)


lemma balance_envs_text:
  "fst (balance_envs s) =
     join ''\<newline>'' (take (end_doc_idx (splitlines s)) (splitlines s)
        @ map end_marker (rev (stack (env_scan (splitlines s))))
        @ drop (end_doc_idx (splitlines s)) (splitlines s)) @ ''\<newline>''"
  by (simp add: balance_envs_def Let_def slice_insert_def)

lemma balance_envs_stats:
  "snd (balance_envs s) =
     \<lparr>inserted_missing_ends = length (stack (env_scan (splitlines s))),
      unmatched_end_count = length (unmatched_end (env_scan (splitlines s)))\<rparr>"
  by (simp add: balance_envs_def Let_def)

lemma balanced_lines_text:
  "\<forall>l\<in>set (take k (splitlines s) @ map end_marker (rev (stack (env_scan (splitlines s))))
       @ drop k (splitlines s)). line_text l"
proof -
  have a: "\<forall>l\<in>set (splitlines s). line_text l" by (simp add: splitlines_line_text)
  have b: "\<forall>l\<in>set (map end_marker (rev (stack (env_scan (splitlines s))))). line_text l"
    by (rule closers_line_text [OF env_scan_tracked])
  from a have "\<forall>l\<in>set (take k (splitlines s)). line_text l"
    by (meson in_set_takeD)
  moreover from a have "\<forall>l\<in>set (drop k (splitlines s)). line_text l"
    by (meson in_set_dropD)
  ultimately show ?thesis using b by (simp add: ball_Un)
qed

lemma balance_envs_splitlines:
  assumes "s \<noteq> []"
  shows "splitlines (fst (balance_envs s)) =
     take (end_doc_idx (splitlines s)) (splitlines s)
     @ map end_marker (rev (stack (env_scan (splitlines s))))
     @ drop (end_doc_idx (splitlines s)) (splitlines s)"
proof -
  from assms have "splitlines s \<noteq> []" using splitlines_empty by blast
  then have "take (end_doc_idx (splitlines s)) (splitlines s)
     @ map end_marker (rev (stack (env_scan (splitlines s))))
     @ drop (end_doc_idx (splitlines s)) (splitlines s) \<noteq> []"
    by (metis append_is_Nil_conv append_take_drop_id)
  then show ?thesis
    unfolding balance_envs_text by (rule splitlines_join) (rule balanced_lines_text)
qed

lemma balance_envs_empty: "balance_envs [] = (''\<newline>'', \<lparr>inserted_missing_ends = 0, unmatched_end_count = 0\<rparr>)"
  by code_simp

lemma balance_envs_newline:
  "balance_envs ''\<newline>'' = (''\<newline>'', \<lparr>inserted_missing_ends = 0, unmatched_end_count = 0\<rparr>)"
  by code_simp

lemma env_scan_newline: "stack (env_scan (splitlines ''\<newline>'')) = []"
  by code_simp

lemma rescan_balanced:
  assumes inert: "\<forall>ln\<in>set (drop (end_doc_idx (splitlines s)) (splitlines s)). env_inert ln"
    and ne: "s \<noteq> []"
  shows "env_scan (splitlines (fst (balance_envs s)))
         = \<lparr>stack = [], unmatched_end = unmatched_end (env_scan (splitlines s))\<rparr>"
proof -
  define ls where "ls = splitlines s"
  define k where "k = end_doc_idx ls"
  define A where "A = take k ls"
  define B where "B = drop k ls"
  define st where "st = scan_env_lines 1 A \<lparr>stack = [], unmatched_end = []\<rparr>"
  have ls: "ls = A @ B" by (simp add: A_def B_def)
  have B: "\<forall>ln\<in>set B. env_inert ln" using inert by (simp add: B_def k_def ls_def)
  have scan: "env_scan ls = st"
    unfolding env_scan_def ls scan_env_lines_append st_def [symmetric]
    by (rule scan_env_lines_inert [OF B])
  have tr: "tracked_names (stack st)" using env_scan_tracked [of ls] by (simp add: scan)
  have st_eq: "st = \<lparr>stack = [] @ stack st, unmatched_end = unmatched_end st\<rparr>" by simp
  have "splitlines (fst (balance_envs s)) = A @ map end_marker (rev (stack st)) @ B"
    using balance_envs_splitlines [OF ne]
    by (simp add: ls_def [symmetric] k_def [symmetric] A_def B_def scan)
  then have "env_scan (splitlines (fst (balance_envs s)))
      = scan_env_lines (1 + length A + length (stack st)) B
          (scan_env_lines (1 + length A) (map end_marker (rev (stack st))) st)"
    by (simp add: env_scan_def scan_env_lines_append st_def)
  also have "scan_env_lines (1 + length A) (map end_marker (rev (stack st))) st
      = \<lparr>stack = [], unmatched_end = unmatched_end st\<rparr>"
    by (subst st_eq) (rule scan_closers [OF tr])
  also have "scan_env_lines (1 + length A + length (stack st)) B
      \<lparr>stack = [], unmatched_end = unmatched_end st\<rparr> = \<lparr>stack = [], unmatched_end = unmatched_end st\<rparr>"
    by (rule scan_env_lines_inert [OF B])
  finally show ?thesis by (simp add: scan [symmetric] ls_def)
qed

lemma balance_envs_fixed:
  assumes "stack (env_scan (splitlines t)) = []" and "splitlines t \<noteq> []"
    and "t = join ''\<newline>'' (splitlines t) @ ''\<newline>''"
  shows "fst (balance_envs t) = t" "inserted_missing_ends (snd (balance_envs t)) = 0"
  using assms by (simp_all add: balance_envs_text balance_envs_stats)















text \<open>
  C3, as the code has it. The closing markers go before the end-of-document line, so a
  tracked environment opened after that line stays open when the output is scanned again:
  for the two lines \<^verbatim>\<open>\end{document}\<close>, \<^verbatim>\<open>\begin{itemize}\<close> the rescan leaves one entry on
  the stack and a second run inserts a second closing marker.
\<close>

theorem balance_envs_not_idempotent:
  "stack (env_scan (splitlines (fst (balance_envs
      (BSL # ''end{document}\<newline>'' @ BSL # ''begin{itemize}''))))) \<noteq> []
   \<and> fst (balance_envs (fst (balance_envs
      (BSL # ''end{document}\<newline>'' @ BSL # ''begin{itemize}''))))
     \<noteq> fst (balance_envs (BSL # ''end{document}\<newline>'' @ BSL # ''begin{itemize}''))"
  by code_simp

text \<open>
  C3, amended. For every text in which no line from the first end-of-document line on
  carries a begin or an end of a tracked environment outside a comment (so for every text
  without an end-of-document line), scanning the output of \<open>balance_envs\<close> again leaves
  the stack empty, and \<open>balance_envs\<close> applied to its own output returns that text
  unchanged and inserts no closing marker.
\<close>

theorem balance_envs_idempotent_inert:
  assumes "\<forall>ln\<in>set (drop (end_doc_idx (splitlines s)) (splitlines s)). env_inert ln"
  shows "stack (env_scan (splitlines (fst (balance_envs s)))) = []
     \<and> fst (balance_envs (fst (balance_envs s))) = fst (balance_envs s)
     \<and> inserted_missing_ends (snd (balance_envs (fst (balance_envs s)))) = 0"
proof (cases "s = []")
  case True
  then show ?thesis
    by (simp add: balance_envs_empty balance_envs_newline env_scan_newline)
next
  case False
  define t where "t = fst (balance_envs s)"
  have a: "stack (env_scan (splitlines t)) = []"
    unfolding t_def by (simp add: rescan_balanced [OF assms False])
  from False have "splitlines s \<noteq> []" using splitlines_empty by blast
  then have ne: "take (end_doc_idx (splitlines s)) (splitlines s)
     @ map end_marker (rev (stack (env_scan (splitlines s))))
     @ drop (end_doc_idx (splitlines s)) (splitlines s) \<noteq> []"
    by (metis append_is_Nil_conv append_take_drop_id)
  have b: "splitlines t \<noteq> []"
    unfolding t_def balance_envs_splitlines [OF False] by (rule ne)
  have c: "join ''\<newline>'' (splitlines t) @ ''\<newline>'' = t"
    unfolding t_def balance_envs_splitlines [OF False]
    by (rule balance_envs_text [symmetric])
  have "fst (balance_envs t) = t"
    by (subst balance_envs_text) (simp add: a c)
  moreover have "inserted_missing_ends (snd (balance_envs t)) = 0"
    by (simp add: balance_envs_stats a)
  ultimately show ?thesis using a unfolding t_def by blast
qed


theorem balance_envs_idempotent_inert_witness:
  "stack (env_scan (splitlines (fst (balance_envs
      (BSL # ''begin{itemize}\<newline>x\<newline>'' @ BSL # ''end{document}\<newline>% '' @ BSL # ''begin{itemize}''))))) = []
   \<and> fst (balance_envs (fst (balance_envs
      (BSL # ''begin{itemize}\<newline>x\<newline>'' @ BSL # ''end{document}\<newline>% '' @ BSL # ''begin{itemize}''))))
     = fst (balance_envs
      (BSL # ''begin{itemize}\<newline>x\<newline>'' @ BSL # ''end{document}\<newline>% '' @ BSL # ''begin{itemize}''))
   \<and> inserted_missing_ends (snd (balance_envs (fst (balance_envs
      (BSL # ''begin{itemize}\<newline>x\<newline>'' @ BSL # ''end{document}\<newline>% '' @ BSL # ''begin{itemize}''))))) = 0"
proof -
  define s where "s = BSL # ''begin{itemize}\<newline>x\<newline>'' @ BSL # ''end{document}\<newline>% ''
      @ BSL # ''begin{itemize}''"
  have "list_all env_inert (drop (end_doc_idx (splitlines s)) (splitlines s))"
    unfolding s_def by code_simp
  then have h: "\<forall>ln\<in>set (drop (end_doc_idx (splitlines s)) (splitlines s)). env_inert ln"
    by (simp add: list_all_iff)
  from balance_envs_idempotent_inert [OF h] show ?thesis unfolding s_def .
qed


section \<open>Properties of the brace auditor\<close>

lemma fold_line_excess:
  "fold (\<lambda>raw total.
             (let s = comment_stripped raw
              in total + int (count_list s CHR ''{'') - int (count_list s CHR ''}''))) ls a
   = a + sum_list (map line_excess ls)"
  by (induction ls arbitrary: a) (simp_all add: line_excess_def Let_def)

lemma rough_brace_imbalance_sum:
  "rough_brace_imbalance s = sum_list (map line_excess (splitlines s))"
  by (simp add: rough_brace_imbalance_def fold_line_excess)

lemma line_excess_closing: "line_excess ''}'' = - 1"
  by (simp add: line_excess_def comment_stripped_def)

lemma line_text_closing: "line_text ''}''"
  by (simp add: line_text_def is_linebreak_def)

lemma auto_fix_braces_splitlines:
  assumes "0 < n"
  shows "splitlines (auto_fix_braces s n) =
     take (end_doc_idx (splitlines s)) (splitlines s) @ replicate (nat n) ''}''
     @ drop (end_doc_idx (splitlines s)) (splitlines s)"
proof -
  define k where "k = end_doc_idx (splitlines s)"
  have a: "\<forall>l\<in>set (splitlines s). line_text l" by (simp add: splitlines_line_text)
  from a have "\<forall>l\<in>set (take k (splitlines s)). line_text l" by (meson in_set_takeD)
  moreover from a have "\<forall>l\<in>set (drop k (splitlines s)). line_text l" by (meson in_set_dropD)
  ultimately have lt: "\<forall>l\<in>set (take k (splitlines s) @ replicate (nat n) ''}''
      @ drop k (splitlines s)). line_text l"
    by (auto simp: line_text_closing)
  from assms have "replicate (nat n) ''}'' \<noteq> []" by simp
  then have ne: "take k (splitlines s) @ replicate (nat n) ''}'' @ drop k (splitlines s) \<noteq> []"
    by simp
  have "auto_fix_braces s n = join ''\<newline>'' (take k (splitlines s) @ replicate (nat n) ''}''
      @ drop k (splitlines s)) @ ''\<newline>''"
    using assms by (simp add: auto_fix_braces_def Let_def slice_insert_def k_def)
  then show ?thesis
    unfolding k_def [symmetric] using splitlines_join [OF ne lt] by simp
qed

lemma auto_fix_braces_balanced:
  assumes "0 < n"
  shows "rough_brace_imbalance (auto_fix_braces s n) = rough_brace_imbalance s - n"
proof -
  define k where "k = end_doc_idx (splitlines s)"
  have "sum_list (map line_excess (take k (splitlines s)))
      + sum_list (map line_excess (drop k (splitlines s)))
      = sum_list (map line_excess (splitlines s))"
    by (metis append_take_drop_id map_append sum_list_append)
  moreover have "sum_list (map line_excess (replicate (nat n) ''}'')) = - n"
    using assms by (simp add: map_replicate_const sum_list_replicate line_excess_closing)
  ultimately show ?thesis
    unfolding rough_brace_imbalance_sum auto_fix_braces_splitlines [OF assms] k_def [symmetric]
    by simp
qed


text \<open>
  C4, as the code has it. The auditor cuts each line at its first percent sign, escaped or
  not: in the one-line text \<^verbatim>\<open>\%{\<close> the brace stands before any unescaped percent sign, so
  the count of the claim is 1, and \<open>rough_brace_imbalance\<close> returns 0.
\<close>

theorem rough_brace_imbalance_escaped_percent:
  "brace_excess_unescaped (BSL # ''%{'') = 1 \<and> rough_brace_imbalance (BSL # ''%{'') \<noteq> 1"
  by code_simp

text \<open>
  C4, amended. For every text, \<open>rough_brace_imbalance\<close> returns the number of opening
  braces minus the number of closing braces, counting on each line only the characters
  before its first percent sign, escaped or not. When that number \<open>n\<close> is positive, the
  lines of \<open>auto_fix_braces\<close> with \<open>n\<close> are the lines of the text with \<open>n\<close>
  lines \<^verbatim>\<open>}\<close> inserted just before the first end-of-document line, or after the last line
  when there is none, and the imbalance of the result is 0; when it is 0 the text is
  returned as it is.
\<close>

theorem brace_audit_first_percent:
  assumes "ls = splitlines s" and "k = end_doc_idx ls" and "n = rough_brace_imbalance s"
  shows "n = (\<Sum>raw\<leftarrow>ls. int (count_list (takeWhile (\<lambda>c. c \<noteq> CHR ''%'') raw) CHR ''{'')
                      - int (count_list (takeWhile (\<lambda>c. c \<noteq> CHR ''%'') raw) CHR ''}''))
    \<and> (0 < n \<longrightarrow>
          splitlines (auto_fix_braces s n) = take k ls @ replicate (nat n) ''}'' @ drop k ls
          \<and> rough_brace_imbalance (auto_fix_braces s n) = 0)
    \<and> (n = 0 \<longrightarrow> auto_fix_braces s n = s)
    \<and> k \<le> length ls \<and> (k < length ls \<longrightarrow> is_end_document (ls ! k))
    \<and> (\<forall>j<k. \<not> is_end_document (ls ! j))"
proof -
  have 1: "n = (\<Sum>raw\<leftarrow>ls. int (count_list (takeWhile (\<lambda>c. c \<noteq> CHR ''%'') raw) CHR ''{'')
                      - int (count_list (takeWhile (\<lambda>c. c \<noteq> CHR ''%'') raw) CHR ''}''))"
    unfolding assms rough_brace_imbalance_sum line_excess_def comment_stripped_def ..
  have 2: "0 < n \<longrightarrow>
          splitlines (auto_fix_braces s n) = take k ls @ replicate (nat n) ''}'' @ drop k ls
          \<and> rough_brace_imbalance (auto_fix_braces s n) = 0"
    using auto_fix_braces_splitlines [of n s] auto_fix_braces_balanced [of n s]
    by (simp add: assms)
  have 3: "n = 0 \<longrightarrow> auto_fix_braces s n = s" by (simp add: auto_fix_braces_def)
  have 4: "k \<le> length ls" "k < length ls \<longrightarrow> is_end_document (ls ! k)"
    "\<forall>j<k. \<not> is_end_document (ls ! j)"
    unfolding assms(2) using end_doc_idx_spec [of ls] by blast+
  from 1 2 3 4 show ?thesis by blast
qed

theorem brace_audit_first_percent_witness:
  "rough_brace_imbalance (''a{b{%}'' @ ''\<newline>'' @ BSL # ''end{document}'') = 2
   \<and> splitlines (auto_fix_braces (''a{b{%}'' @ ''\<newline>'' @ BSL # ''end{document}'') 2)
      = [''a{b{%}'', ''}'', ''}'', BSL # ''end{document}'']
   \<and> rough_brace_imbalance (auto_fix_braces (''a{b{%}'' @ ''\<newline>'' @ BSL # ''end{document}'') 2) = 0"
proof -
  define s where "s = ''a{b{%}'' @ ''\<newline>'' @ BSL # ''end{document}''"
  have n: "rough_brace_imbalance s = 2" unfolding s_def by code_simp
  have e: "take (end_doc_idx (splitlines s)) (splitlines s) @ replicate (nat 2) ''}''
        @ drop (end_doc_idx (splitlines s)) (splitlines s)
      = [''a{b{%}'', ''}'', ''}'', BSL # ''end{document}'']"
    unfolding s_def by code_simp
  have "rough_brace_imbalance s = 2
   \<and> splitlines (auto_fix_braces s 2) = [''a{b{%}'', ''}'', ''}'', BSL # ''end{document}'']
   \<and> rough_brace_imbalance (auto_fix_braces s 2) = 0"
    using brace_audit_first_percent [OF refl refl refl, where s = s] n e by simp
  then show ?thesis unfolding s_def .
qed


section \<open>The guarantor on whole texts\<close>

lemma items_guaranteed_line_text:
  "\<forall>l\<in>set ls. line_text l \<Longrightarrow> \<forall>l\<in>set (items_guaranteed ls). line_text l"
proof (induction ls)
  case Nil
  then show ?case by simp
next
  case (Cons l ls)
  have i: "line_text (BSL # ''item'')" by code_simp
  from Cons show ?case by (simp add: i)
qed

lemma items_guaranteed_nonempty: "ls \<noteq> [] \<Longrightarrow> items_guaranteed ls \<noteq> []"
  by (cases ls) auto

lemma ensure_list_items_splitlines:
  assumes "s \<noteq> []"
  shows "splitlines (join ''\<newline>'' (items_guaranteed (splitlines s)) @ ''\<newline>'')
         = items_guaranteed (splitlines s)"
proof -
  from assms have "splitlines s \<noteq> []" using splitlines_empty by blast
  then have "items_guaranteed (splitlines s) \<noteq> []" by (rule items_guaranteed_nonempty)
  moreover have "\<forall>l\<in>set (items_guaranteed (splitlines s)). line_text l"
    by (rule items_guaranteed_line_text) (simp add: splitlines_line_text)
  ultimately show ?thesis by (rule splitlines_join)
qed

text \<open>
  C8. For every text, \<open>ensure_list_items\<close> returns the lines of the text in which each line
  with a begin of \<^verbatim>\<open>itemize\<close> or \<^verbatim>\<open>enumerate\<close> whose scan window (the following lines before
  the first line with an end of either kind) has no item line is followed by exactly one
  line \<^verbatim>\<open>\item\<close>; a begin line whose window has an item line, and every other line, is
  followed by nothing new.
\<close>

theorem ensure_list_items_guarantee:
  "ensure_list_items s = Some (join ''\<newline>'' (items_guaranteed (splitlines s)) @ ''\<newline>'')
   \<and> (s \<noteq> [] \<longrightarrow>
        (\<exists>out. ensure_list_items s = Some out
               \<and> splitlines out = items_guaranteed (splitlines s)))
   \<and> (has_list_begin l \<and> \<not> window_has_item rest \<longrightarrow>
        items_guaranteed (l # rest) = l # (BSL # ''item'') # items_guaranteed rest)
   \<and> (\<not> (has_list_begin l \<and> \<not> window_has_item rest) \<longrightarrow>
        items_guaranteed (l # rest) = l # items_guaranteed rest)"
  using ensure_list_items_splitlines [of s]
  by (simp add: ensure_list_items_result)

theorem ensure_list_items_guarantee_witness:
  "ensure_list_items (BSL # ''begin{itemize}\<newline>'' @ BSL # ''end{itemize}\<newline>''
      @ BSL # ''begin{enumerate}\<newline>  '' @ BSL # ''item x\<newline>'' @ BSL # ''end{enumerate}'')
   = Some (BSL # ''begin{itemize}\<newline>'' @ BSL # ''item\<newline>'' @ BSL # ''end{itemize}\<newline>''
      @ BSL # ''begin{enumerate}\<newline>  '' @ BSL # ''item x\<newline>'' @ BSL # ''end{enumerate}\<newline>'')"
proof -
  define s where "s = BSL # ''begin{itemize}\<newline>'' @ BSL # ''end{itemize}\<newline>''
      @ BSL # ''begin{enumerate}\<newline>  '' @ BSL # ''item x\<newline>'' @ BSL # ''end{enumerate}''"
  have e: "join ''\<newline>'' (items_guaranteed (splitlines s)) @ ''\<newline>''
      = BSL # ''begin{itemize}\<newline>'' @ BSL # ''item\<newline>'' @ BSL # ''end{itemize}\<newline>''
      @ BSL # ''begin{enumerate}\<newline>  '' @ BSL # ''item x\<newline>'' @ BSL # ''end{enumerate}\<newline>''"
    unfolding s_def by code_simp
  have "ensure_list_items s
   = Some (BSL # ''begin{itemize}\<newline>'' @ BSL # ''item\<newline>'' @ BSL # ''end{itemize}\<newline>''
      @ BSL # ''begin{enumerate}\<newline>  '' @ BSL # ''item x\<newline>'' @ BSL # ''end{enumerate}\<newline>'')"
    using ensure_list_items_guarantee [of s] e by simp
  then show ?thesis unfolding s_def .
qed


section \<open>The final line feed of the stages\<close>

lemma auto_fix_braces_last:
  "0 < n \<Longrightarrow> auto_fix_braces s n \<noteq> [] \<and> last (auto_fix_braces s n) = CHR 0x0A"
  by (simp add: auto_fix_braces_def Let_def)

lemma balance_envs_last:
  "fst (balance_envs s) \<noteq> [] \<and> last (fst (balance_envs s)) = CHR 0x0A"
  by (simp add: balance_envs_text)

text \<open>
  C10. For every text the outputs of \<open>replace_invocations\<close>, \<open>balance_envs\<close> and
  \<open>ensure_list_items\<close>, and of \<open>auto_fix_braces\<close> with a positive count, are not empty and
  end with a line feed; so these stages change a text that does not end with one even
  when no rule applies, as on the text \<^verbatim>\<open>a\<close>.
\<close>

theorem stage_outputs_end_with_newline:
  "replace_invocations s \<noteq> [] \<and> last (replace_invocations s) = CHR 0x0A
   \<and> fst (balance_envs s) \<noteq> [] \<and> last (fst (balance_envs s)) = CHR 0x0A
   \<and> (\<exists>out. ensure_list_items s = Some out \<and> out \<noteq> [] \<and> last out = CHR 0x0A)
   \<and> (0 < n \<longrightarrow> auto_fix_braces s n \<noteq> [] \<and> last (auto_fix_braces s n) = CHR 0x0A)
   \<and> replace_invocations ''a'' = ''a\<newline>''
   \<and> fst (balance_envs ''a'') = ''a\<newline>''
   \<and> ensure_list_items ''a'' = Some ''a\<newline>''"
proof -
  have 1: "replace_invocations ''a'' = ''a\<newline>''" by code_simp
  have 2: "fst (balance_envs ''a'') = ''a\<newline>''" by code_simp
  have 3: "ensure_list_items ''a'' = Some ''a\<newline>''" by code_simp
  have 4: "\<exists>out. ensure_list_items s = Some out \<and> out \<noteq> [] \<and> last out = CHR 0x0A"
    by (simp add: ensure_list_items_result)
  have 5: "0 < n \<longrightarrow> auto_fix_braces s n \<noteq> [] \<and> last (auto_fix_braces s n) = CHR 0x0A"
    using auto_fix_braces_last [of n s] by (rule impI)
  note 6 = replace_invocations_last [of s, THEN conjunct1]
    replace_invocations_last [of s, THEN conjunct2]
  note 7 = balance_envs_last [of s, THEN conjunct1] balance_envs_last [of s, THEN conjunct2]
  show ?thesis by (intro conjI) (rule 1 2 3 4 5 6 7)+
qed

theorem stage_outputs_end_with_newline_witness:
  "auto_fix_braces ''a{'' 1 \<noteq> [] \<and> last (auto_fix_braces ''a{'' 1) = CHR 0x0A
   \<and> last (replace_invocations ''a{'') = CHR 0x0A"
  using stage_outputs_end_with_newline [of "''a{''" 1] by simp


section \<open>Properties of the invocation rewriter\<close>

lemma fold_depth_on_begin_nonneg: "0 \<le> d \<Longrightarrow> 0 \<le> fold depth_on_begin names d"
  by (induction names arbitrary: d) (simp_all add: depth_on_begin_def)

lemma fold_depth_on_end_nonneg: "0 \<le> d \<Longrightarrow> 0 \<le> fold depth_on_end names d"
  by (induction names arbitrary: d) (simp_all add: depth_on_end_def)

lemma repl_item_nonneg: "0 \<le> d \<Longrightarrow> 0 \<le> snd (repl_item d x)"
  by (simp add: repl_item_def)

lemma sub_item_nonneg: "0 \<le> d \<Longrightarrow> 0 \<le> snd (sub_item kw s d)"
proof (induction kw s d rule: sub_item.induct)
  case (1 kw s d)
  show ?case
  proof (cases "s = []")
    case True
    with "1.prems" show ?thesis by (simp add: sub_item.simps)
  next
    case False
    show ?thesis
    proof (cases "match_item kw s")
      case None
      from "1.IH"(1) [OF False None "1.prems"]
      show ?thesis using False None by (subst sub_item.simps) (simp add: split_def Let_def)
    next
      case (Some p)
      obtain x rest where p: "p = (x, rest)" by (cases p)
      obtain r d' where rd: "repl_item d x = (r, d')" by (cases "repl_item d x")
      have "0 \<le> d'" using repl_item_nonneg [OF "1.prems", of x] rd by simp
      from "1.IH"(2) [OF False Some p [symmetric] refl rd [symmetric] this]
      show ?thesis using False Some p rd by (subst sub_item.simps) (simp add: split_def Let_def)
    qed
  qed
qed

lemma process_line_nonneg: "0 \<le> d \<Longrightarrow> 0 \<le> snd (process_line d raw)"
proof -
  assume d: "0 \<le> d"
  define ln where "ln =
    str_replace (BSL # ''resumeItemListEnd'') (BSL # ''end{itemize}'')
     (str_replace (BSL # ''resumeItemListStart'') (BSL # ''begin{itemize}'')
       (str_replace (BSL # ''resumeSubHeadingListEnd'') (BSL # ''end{itemize}'')
         (str_replace (BSL # ''resumeSubHeadingListStart'') (BSL # ''begin{itemize}'') raw)))"
  define d1 where "d1 = fold depth_on_end (finditer_env ''end'' ln)
      (fold depth_on_begin (finditer_env ''begin'' ln) d)"
  have d1: "0 \<le> d1"
    unfolding d1_def by (intro fold_depth_on_end_nonneg fold_depth_on_begin_nonneg d)
  obtain l2 d2 where s1: "sub_item ''resumeItem'' ln d1 = (l2, d2)"
    by (cases "sub_item ''resumeItem'' ln d1")
  have d2: "0 \<le> d2" using sub_item_nonneg [OF d1, of "''resumeItem''" ln] s1 by simp
  have "snd (process_line d raw) = snd (sub_item ''resumeSubItem'' l2 d2)"
    unfolding process_line_def Let_def ln_def [symmetric] d1_def [symmetric] s1
    by (simp add: split_def Let_def)
  with sub_item_nonneg [OF d2] show ?thesis by simp
qed

lemma rewrite_lines_nonneg: "0 \<le> d \<Longrightarrow> 0 \<le> snd (rewrite_lines ls d)"
proof (induction ls arbitrary: d)
  case Nil
  then show ?case by simp
next
  case (Cons raw ls)
  obtain ln d' where p: "process_line d raw = (ln, d')" by (cases "process_line d raw")
  have "0 \<le> d'" using process_line_nonneg [OF Cons.prems, of raw] p by simp
  from Cons.IH [OF this] show ?case by (simp add: p split_def Let_def)
qed

lemma takeWhile_until_brace:
  "CHR ''}'' \<notin> set x \<Longrightarrow> takeWhile (\<lambda>c. c \<noteq> CHR ''}'') (x @ CHR ''}'' # rest) = x"
  by (induction x) auto

lemma dropWhile_until_brace:
  "CHR ''}'' \<notin> set x \<Longrightarrow>
   dropWhile (\<lambda>c. c \<noteq> CHR ''}'') (x @ CHR ''}'' # rest) = CHR ''}'' # rest"
  by (induction x) auto

lemma match_item_at:
  assumes "CHR ''}'' \<notin> set x"
  shows "match_item kw (BSL # kw @ CHR ''{'' # x @ CHR ''}'' # rest) = Some (x, rest)"
  by (simp add: match_item_def Let_def starts_with_def
      takeWhile_until_brace [OF assms] dropWhile_until_brace [OF assms])

lemma sub_item_at:
  assumes "CHR ''}'' \<notin> set x"
  shows "sub_item kw (BSL # kw @ CHR ''{'' # x @ CHR ''}'' # rest) d =
     (fst (repl_item d x) @ fst (sub_item kw rest (snd (repl_item d x))),
      snd (sub_item kw rest (snd (repl_item d x))))"
  by (subst sub_item.simps) (simp add: match_item_at [OF assms] split_def Let_def)

lemma match_item_Some:
  assumes "match_item kw t = Some (x, rest)"
  shows "t = BSL # kw @ ''{'' @ x @ ''}'' @ rest \<and> CHR ''}'' \<notin> set x"
proof -
  define n where "n = length (BSL # kw @ ''{'')"
  define r where "r = drop n t"
  from assms have st: "take n t = BSL # kw @ ''{''"
    and x: "x = takeWhile (\<lambda>c. c \<noteq> CHR ''}'') r"
    and b: "starts_with ''}'' (dropWhile (\<lambda>c. c \<noteq> CHR ''}'') r)"
    and rest: "rest = drop 1 (dropWhile (\<lambda>c. c \<noteq> CHR ''}'') r)"
    by (auto simp: match_item_def Let_def starts_with_def n_def r_def split: if_splits)
  from b have "take 1 (dropWhile (\<lambda>c. c \<noteq> CHR ''}'') r) = ''}''"
    by (simp add: starts_with_def)
  then have "dropWhile (\<lambda>c. c \<noteq> CHR ''}'') r = ''}'' @ rest"
    unfolding rest by (metis append_take_drop_id)
  then have "r = x @ ''}'' @ rest"
    unfolding x by (metis takeWhile_dropWhile_id)
  moreover have "take n t @ r = t" unfolding r_def by (rule append_take_drop_id)
  ultimately have "t = (BSL # kw @ ''{'') @ x @ ''}'' @ rest" using st by simp
  moreover have "CHR ''}'' \<notin> set x" unfolding x by (auto dest: set_takeWhileD)
  ultimately show ?thesis by simp
qed

lemma match_item_iff:
  "match_item kw t = Some (x, rest)
   \<longleftrightarrow> t = BSL # kw @ ''{'' @ x @ ''}'' @ rest \<and> CHR ''}'' \<notin> set x"
proof
  assume "match_item kw t = Some (x, rest)"
  then show "t = BSL # kw @ ''{'' @ x @ ''}'' @ rest \<and> CHR ''}'' \<notin> set x"
    by (rule match_item_Some)
next
  assume "t = BSL # kw @ ''{'' @ x @ ''}'' @ rest \<and> CHR ''}'' \<notin> set x"
  then show "match_item kw t = Some (x, rest)"
    using match_item_at [of x kw rest] by simp
qed

lemma match_item_Nil: "match_item kw [] = None"
  by (simp add: match_item_def starts_with_def)

lemma sub_item_Nil: "sub_item kw [] d = ([], d)"
  by (simp add: sub_item.simps)

lemma sub_item_no_match:
  "match_item kw (c # cs) = None \<Longrightarrow>
   sub_item kw (c # cs) d = (c # fst (sub_item kw cs d), snd (sub_item kw cs d))"
  by (subst sub_item.simps) (simp add: split_def Let_def)

lemma sub_item_match:
  "match_item kw t = Some (x, rest) \<Longrightarrow>
   sub_item kw t d =
     (fst (repl_item d x) @ fst (sub_item kw rest (snd (repl_item d x))),
      snd (sub_item kw rest (snd (repl_item d x))))"
proof -
  assume m: "match_item kw t = Some (x, rest)"
  then have "t \<noteq> []" using match_item_Nil by auto
  with m show ?thesis by (subst sub_item.simps) (simp add: split_def Let_def)
qed

lemma sub_item_unchanged: "\<not> has_item kw s \<Longrightarrow> sub_item kw s d = (s, d)"
proof (induction s)
  case Nil
  show ?case by (rule sub_item_Nil)
next
  case (Cons c cs)
  from Cons.prems have m: "match_item kw (c # cs) = None"
    by (cases "match_item kw (c # cs)") auto
  from Cons.prems have h: "\<not> has_item kw cs" by simp
  from Cons.IH [OF h] show ?case by (simp add: sub_item_no_match [OF m])
qed

lemma sub_item_skip:
  "\<forall>k<length pre. match_item kw (drop k (pre @ t)) = None \<Longrightarrow>
   sub_item kw (pre @ t) d = (pre @ fst (sub_item kw t d), snd (sub_item kw t d))"
proof (induction pre)
  case Nil
  then show ?case by simp
next
  case (Cons c pre)
  from Cons.prems have 0: "match_item kw (c # pre @ t) = None" by force
  have "\<forall>k<length pre. match_item kw (drop k (pre @ t)) = None"
  proof (intro allI impI)
    fix k assume "k < length pre"
    then have "Suc k < length (c # pre)" by simp
    with Cons.prems have "match_item kw (drop (Suc k) ((c # pre) @ t)) = None" by blast
    then show "match_item kw (drop k (pre @ t)) = None" by simp
  qed
  from Cons.IH [OF this] show ?case by (simp add: sub_item_no_match [OF 0])
qed

lemma sub_item_first:
  assumes "\<forall>k<length pre. match_item kw (drop k (pre @ t)) = None"
    and "match_item kw t = Some (x, rest)"
  shows "sub_item kw (pre @ t) d =
     (pre @ fst (repl_item d x) @ fst (sub_item kw rest (snd (repl_item d x))),
      snd (sub_item kw rest (snd (repl_item d x))))"
  by (simp add: sub_item_skip [OF assms(1)] sub_item_match [OF assms(2)])

lemma has_item_iff:
  "has_item kw s \<longleftrightarrow> (\<exists>pre x rest. s = pre @ BSL # kw @ ''{'' @ x @ ''}'' @ rest)"
proof
  assume "has_item kw s"
  then show "\<exists>pre x rest. s = pre @ BSL # kw @ ''{'' @ x @ ''}'' @ rest"
  proof (induction s)
    case Nil
    then show ?case by simp
  next
    case (Cons c cs)
    show ?case
    proof (cases "match_item kw (c # cs)")
      case None
      with Cons obtain pre x rest where "cs = pre @ BSL # kw @ ''{'' @ x @ ''}'' @ rest"
        by auto
      then have "c # cs = (c # pre) @ BSL # kw @ ''{'' @ x @ ''}'' @ rest" by simp
      then show ?thesis by blast
    next
      case (Some p)
      obtain x rest where "p = (x, rest)" by (cases p)
      with Some match_item_Some [of kw "c # cs" x rest]
      have "c # cs = [] @ BSL # kw @ ''{'' @ x @ ''}'' @ rest" by simp
      then show ?thesis by blast
    qed
  qed
next
  assume "\<exists>pre x rest. s = pre @ BSL # kw @ ''{'' @ x @ ''}'' @ rest"
  then obtain pre x rest where s: "s = pre @ BSL # kw @ ''{'' @ x @ ''}'' @ rest" by blast
  define r where "r = x @ ''}'' @ rest"
  have "CHR ''}'' \<in> set r" by (simp add: r_def)
  then have dw: "dropWhile (\<lambda>c. c \<noteq> CHR ''}'') r \<noteq> []" by (simp add: dropWhile_eq_Nil_conv)
  then have "hd (dropWhile (\<lambda>c. c \<noteq> CHR ''}'') r) = CHR ''}''"
    using hd_dropWhile [of "\<lambda>c. c \<noteq> CHR ''}''" r] by simp
  with dw have "starts_with ''}'' (dropWhile (\<lambda>c. c \<noteq> CHR ''}'') r)"
    by (cases "dropWhile (\<lambda>c. c \<noteq> CHR ''}'') r") (simp_all add: starts_with_def)
  then have m: "match_item kw (BSL # kw @ ''{'' @ r) \<noteq> None"
    by (simp add: match_item_def Let_def starts_with_def)
  have "has_item kw (pre @ BSL # kw @ ''{'' @ r)"
    using m by (induction pre) simp_all
  then show "has_item kw s" by (simp add: s r_def)
qed

lemma sub_item_depth:
  "snd (sub_item kw s d) = (if d = 0 \<and> has_item kw s then 1 else d)"
proof (induction kw s d rule: sub_item.induct)
  case (1 kw s d)
  show ?case
  proof (cases s)
    case Nil
    then show ?thesis by (simp add: sub_item_Nil)
  next
    case (Cons c cs)
    then have ne: "s \<noteq> []" by simp
    show ?thesis
    proof (cases "match_item kw s")
      case None
      from "1.IH"(1) [OF ne None] Cons
      have "snd (sub_item kw cs d) = (if d = 0 \<and> has_item kw cs then 1 else d)"
        by simp
      with None Cons show ?thesis
        by (simp add: sub_item_no_match)
    next
      case (Some p)
      obtain x rest where p: "p = (x, rest)" by (cases p)
      obtain r d' where rd: "repl_item d x = (r, d')" by (cases "repl_item d x")
      from "1.IH"(2) [OF ne Some p [symmetric] refl rd [symmetric]]
      have ih: "snd (sub_item kw rest d') = (if d' = 0 \<and> has_item kw rest then 1 else d')" .
      have d': "d' = (if d = 0 then 1 else d)" using rd by (auto simp: repl_item_def)
      have h: "has_item kw s" using Some Cons by simp
      from Some p have "snd (sub_item kw s d) = snd (sub_item kw rest d')"
        by (simp add: sub_item_match rd)
      also have "\<dots> = (if d' = 0 \<and> has_item kw rest then 1 else d')" by (rule ih)
      also have "\<dots> = (if d = 0 \<and> has_item kw s then 1 else d)"
        using h d' by simp
      finally show ?thesis .
    qed
  qed
qed

lemma fold_depth_on_begin_count:
  "fold depth_on_begin names d = d + int (count_list names ''itemize'')"
  by (induction names arbitrary: d) (simp_all add: depth_on_begin_def)

lemma fold_depth_on_end_count:
  "fold depth_on_end names d =
     (if d \<le> 0 then d else max 0 (d - int (count_list names ''itemize'')))"
  by (induction names arbitrary: d) (auto simp: depth_on_end_def)

lemma process_line_eq:
  "process_line d raw =
     sub_item ''resumeSubItem''
       (fst (sub_item ''resumeItem'' (list_macros_replaced raw)
               (depth_after_markers d (list_macros_replaced raw))))
       (snd (sub_item ''resumeItem'' (list_macros_replaced raw)
               (depth_after_markers d (list_macros_replaced raw))))"
  unfolding process_line_def Let_def list_macros_replaced_def [symmetric]
    depth_after_markers_def fold_depth_on_begin_count fold_depth_on_end_count
  by (simp add: split_def)

lemma rewrite_lines_snoc:
  "rewrite_lines (ls @ [raw]) d =
     (fst (rewrite_lines ls d) @ [fst (process_line (snd (rewrite_lines ls d)) raw)],
      snd (process_line (snd (rewrite_lines ls d)) raw))"
  by (induction ls arbitrary: d) (simp_all add: split_def Let_def)

lemma rewrite_lines_append:
  "rewrite_lines (ls @ ms) d =
     (fst (rewrite_lines ls d) @ fst (rewrite_lines ms (snd (rewrite_lines ls d))),
      snd (rewrite_lines ms (snd (rewrite_lines ls d))))"
  by (induction ls arbitrary: d) (simp_all add: split_def Let_def)

lemma rewrite_lines_length: "length (fst (rewrite_lines ls d)) = length ls"
  by (induction ls arbitrary: d) (simp_all add: split_def Let_def)

lemma rewrite_lines_nth:
  assumes "j < length ls"
  shows "fst (rewrite_lines ls d) ! j
       = fst (process_line (snd (rewrite_lines (take j ls) d)) (ls ! j))"
    and "snd (rewrite_lines (take (Suc j) ls) d)
       = snd (process_line (snd (rewrite_lines (take j ls) d)) (ls ! j))"
proof -
  have ls: "ls = take j ls @ ls ! j # drop (Suc j) ls"
    using assms by (simp add: id_take_nth_drop)
  have len: "length (fst (rewrite_lines (take j ls) d)) = j"
    using assms by (simp add: rewrite_lines_length)
  have "fst (rewrite_lines (take j ls @ ls ! j # drop (Suc j) ls) d) ! j
       = fst (process_line (snd (rewrite_lines (take j ls) d)) (ls ! j))"
    by (simp add: rewrite_lines_append nth_append len split_def Let_def)
  with ls show "fst (rewrite_lines ls d) ! j
       = fst (process_line (snd (rewrite_lines (take j ls) d)) (ls ! j))" by simp
  have "take (Suc j) ls = take j ls @ [ls ! j]" using assms by (simp add: take_Suc_conv_app_nth)
  then show "snd (rewrite_lines (take (Suc j) ls) d)
       = snd (process_line (snd (rewrite_lines (take j ls) d)) (ls ! j))"
    by (simp add: rewrite_lines_snoc)
qed

lemma replace_invocations_eq:
  "replace_invocations s =
     sub_subheading (join ''\<newline>'' (fst (rewrite_lines (splitlines s) 0)) @ ''\<newline>'')"
  by (simp add: replace_invocations_def split_def Let_def)


lemma starts_with_prefix: "starts_with (p @ q) s \<Longrightarrow> starts_with p s"
proof -
  assume "starts_with (p @ q) s"
  then have e: "take (length p + length q) s = p @ q" by (simp add: starts_with_def)
  have "take (length p) s = take (length p) (take (length p + length q) s)" by simp
  also have "\<dots> = p" unfolding e by simp
  finally show ?thesis by (simp add: starts_with_def)
qed

lemma contains_prefix: "contains (p @ q) s \<Longrightarrow> contains p s"
proof (induction s)
  case Nil
  then show ?case by (simp add: starts_with_def)
next
  case (Cons c cs)
  then show ?case using starts_with_prefix [of p q "c # cs"] by auto
qed

lemma str_replace_unchanged:
  "old \<noteq> [] \<Longrightarrow> \<not> contains old s \<Longrightarrow> str_replace old new s = s"
proof (induction s)
  case Nil
  then show ?case by (subst str_replace.simps) simp
next
  case (Cons c cs)
  from Cons.prems have a: "\<not> starts_with old (c # cs)" and b: "\<not> contains old cs"
    by simp_all
  from Cons.IH [OF Cons.prems(1) b] a Cons.prems(1) show ?case
    by (subst str_replace.simps) simp
qed

lemma list_macros_replaced_unchanged:
  assumes "\<not> contains (BSL # ''resumeSubHeadingList'') raw"
    and "\<not> contains (BSL # ''resumeItemList'') raw"
  shows "list_macros_replaced raw = raw"
proof -
  have 1: "\<not> contains ((BSL # ''resumeSubHeadingList'') @ ''Start'') raw"
    and 2: "\<not> contains ((BSL # ''resumeSubHeadingList'') @ ''End'') raw"
    and 3: "\<not> contains ((BSL # ''resumeItemList'') @ ''Start'') raw"
    and 4: "\<not> contains ((BSL # ''resumeItemList'') @ ''End'') raw"
    using assms contains_prefix by blast+
  have a: "str_replace (BSL # ''resumeSubHeadingListStart'') new raw = raw" for new
    using 1 by (intro str_replace_unchanged) simp_all
  have b: "str_replace (BSL # ''resumeSubHeadingListEnd'') new raw = raw" for new
    using 2 by (intro str_replace_unchanged) simp_all
  have c: "str_replace (BSL # ''resumeItemListStart'') new raw = raw" for new
    using 3 by (intro str_replace_unchanged) simp_all
  have d: "str_replace (BSL # ''resumeItemListEnd'') new raw = raw" for new
    using 4 by (intro str_replace_unchanged) simp_all
  show ?thesis unfolding list_macros_replaced_def a b c d by (rule refl)
qed

lemma match_subheading_None:
  "\<not> starts_with (BSL # ''resumeSubheading{'') s \<Longrightarrow> match_subheading s = None"
  by (simp add: match_subheading_def)

lemma sub_subheading_unchanged:
  "\<not> contains (BSL # ''resumeSubheading{'') s \<Longrightarrow> sub_subheading s = s"
proof (induction s)
  case Nil
  show ?case by (subst sub_subheading.simps) simp
next
  case (Cons c cs)
  from Cons.prems have a: "\<not> starts_with (BSL # ''resumeSubheading{'') (c # cs)"
    and b: "\<not> contains (BSL # ''resumeSubheading{'') cs" by simp_all
  from Cons.IH [OF b] show ?case
    by (subst sub_subheading.simps) (simp add: match_subheading_None [OF a])
qed

lemma depth_after_markers_fold:
  "depth_after_markers d ln =
     fold depth_on_end (finditer_env ''end'' ln) (fold depth_on_begin (finditer_env ''begin'' ln) d)"
  by (simp add: depth_after_markers_def fold_depth_on_begin_count fold_depth_on_end_count Let_def)

lemma sub_item_twice:
  assumes "CHR ''}'' \<notin> set x" and "CHR ''}'' \<notin> set y"
  shows "sub_item kw (BSL # kw @ ''{'' @ x @ ''}'' @ BSL # kw @ ''{'' @ y @ ''}'') 0 =
       (BSL # ''begin{itemize}'' @ ''\<newline>'' @ BSL # ''item '' @ x @ BSL # ''item '' @ y, 1)"
proof -
  have "sub_item kw (BSL # kw @ ''{'' @ y @ ''}'' @ []) 1 = (BSL # ''item '' @ y, 1)"
    by (simp add: sub_item_at [OF assms(2)] repl_item_def sub_item_Nil)
  then have y: "sub_item kw (BSL # kw @ CHR ''{'' # y @ ''}'') 1 = (BSL # ''item '' @ y, 1)"
    by simp
  show ?thesis by (simp add: sub_item_at [OF assms(1)] repl_item_def y)
qed

lemma sub_item_leftmost:
  assumes "CHR ''}'' \<notin> set x"
    and "\<forall>k<length pre. match_item kw (drop k (pre @ BSL # kw @ ''{'' @ x @ ''}'' @ rest)) = None"
  shows "sub_item kw (pre @ BSL # kw @ ''{'' @ x @ ''}'' @ rest) d =
     (pre @ (if d = 0 then BSL # ''begin{itemize}'' @ ''\<newline>'' else []) @ BSL # ''item '' @ x
        @ fst (sub_item kw rest (if d = 0 then 1 else d)),
      snd (sub_item kw rest (if d = 0 then 1 else d)))"
proof -
  have m: "match_item kw (BSL # kw @ ''{'' @ x @ ''}'' @ rest) = Some (x, rest)"
    using match_item_at [OF assms(1), of kw rest] by simp
  show ?thesis
    unfolding sub_item_first [OF assms(2) m] by (simp add: repl_item_def)
qed

text \<open>
  C1, as the code has it. The argument of an item macro is cut at the first closing
  brace: on \<^verbatim>\<open>\resumeItem{\textbf{a} b}\<close>, whose brace-delimited argument is
  \<^verbatim>\<open>\textbf{a} b\<close>, the item line written is \<^verbatim>\<open>\item \textbf{a b}\<close> and the output does not
  contain the argument.
\<close>

theorem resume_item_nested_braces:
  "replace_invocations (BSL # ''resumeItem{'' @ BSL # ''textbf{a} b}'')
     = BSL # ''begin{itemize}\<newline>'' @ BSL # ''item '' @ BSL # ''textbf{a b}\<newline>''
   \<and> contains (BSL # ''textbf{a} b'')
       (replace_invocations (BSL # ''resumeItem{'' @ BSL # ''textbf{a} b}'')) = False"
  by code_simp

text \<open>
  C1, amended. An occurrence of an item macro (\<open>kw\<close> is \<^verbatim>\<open>resumeItem\<close> or
  \<^verbatim>\<open>resumeSubItem\<close>) is the macro name, an opening brace, a text \<open>x\<close> without closing brace
  and the first closing brace after it. For every line and every value of the counter: a
  line without occurrence is left as it is; at the leftmost occurrence the text before it
  is kept, the occurrence is replaced, when the counter is 0, by one list begin, a line
  feed and the item with \<open>x\<close>, the counter going to 1, and otherwise by the item with \<open>x\<close>
  alone, the counter kept, and the text after the occurrence is rewritten in the same way
  with the new counter. A line is rewritten for \<^verbatim>\<open>resumeItem\<close> and then for
  \<^verbatim>\<open>resumeSubItem\<close>, after its list macros are replaced (nothing, where there is none) and
  the counter has counted its begins and ends of \<^verbatim>\<open>itemize\<close>; line \<open>j\<close> of a text is
  rewritten with the counter left by the lines before it, from 0, and the output is the
  rewritten lines, each with a line feed, the sub-heading macros replaced afterwards
  (nothing, where there is none). Two occurrences in a row with the counter at 0 give one
  list begin, on one line and, for \<open>replace_invocations\<close> on the sample texts, on two
  lines.
\<close>

theorem resume_item_rewrite:
  assumes "ln = list_macros_replaced raw" and "dm = depth_after_markers d ln"
    and "t = BSL # kw @ ''{'' @ x @ ''}'' @ rest"
    and "dk' = (if dk = 0 then 1 else dk)"
  shows "(match_item kw u = Some (x, rest) \<longleftrightarrow> u = t \<and> CHR ''}'' \<notin> set x)
   \<and> (has_item kw s \<longleftrightarrow> (\<exists>p a r. s = p @ BSL # kw @ ''{'' @ a @ ''}'' @ r))
   \<and> (\<not> has_item kw s \<longrightarrow> sub_item kw s dk = (s, dk))
   \<and> (CHR ''}'' \<notin> set x \<and> (\<forall>k<length pre. match_item kw (drop k (pre @ t)) = None) \<longrightarrow>
        sub_item kw (pre @ t) dk =
          (pre @ (if dk = 0 then BSL # ''begin{itemize}'' @ ''\<newline>'' else []) @ BSL # ''item '' @ x
             @ fst (sub_item kw rest dk'),
           snd (sub_item kw rest dk')))
   \<and> process_line d raw =
        sub_item ''resumeSubItem'' (fst (sub_item ''resumeItem'' ln dm))
          (snd (sub_item ''resumeItem'' ln dm))
   \<and> length (fst (rewrite_lines ls d)) = length ls
   \<and> (j < length ls \<longrightarrow>
        fst (rewrite_lines ls d) ! j
          = fst (process_line (snd (rewrite_lines (take j ls) d)) (ls ! j))
        \<and> snd (rewrite_lines (take (Suc j) ls) d)
          = snd (process_line (snd (rewrite_lines (take j ls) d)) (ls ! j)))
   \<and> snd (rewrite_lines (take 0 ls) d) = d
   \<and> replace_invocations s =
        sub_subheading (join ''\<newline>'' (fst (rewrite_lines (splitlines s) 0)) @ ''\<newline>'')
   \<and> (\<not> contains (BSL # ''resumeSubheading{'') s \<longrightarrow> sub_subheading s = s)
   \<and> (CHR ''}'' \<notin> set x \<and> CHR ''}'' \<notin> set y \<longrightarrow>
        sub_item kw (BSL # kw @ ''{'' @ x @ ''}'' @ BSL # kw @ ''{'' @ y @ ''}'') 0 =
          (BSL # ''begin{itemize}'' @ ''\<newline>'' @ BSL # ''item '' @ x @ BSL # ''item '' @ y, 1))
   \<and> replace_invocations (BSL # ''resumeItem{X}'')
       = BSL # ''begin{itemize}\<newline>'' @ BSL # ''item X\<newline>''
   \<and> replace_invocations (BSL # ''resumeItem{a}\<newline>'' @ BSL # ''resumeItem{b}'')
       = BSL # ''begin{itemize}\<newline>'' @ BSL # ''item a\<newline>'' @ BSL # ''item b\<newline>''
   \<and> replace_invocations (BSL # ''resumeSubItem{a}\<newline>'' @ BSL # ''resumeItem{b}'')
       = BSL # ''begin{itemize}\<newline>'' @ BSL # ''item a\<newline>'' @ BSL # ''item b\<newline>''
   \<and> (\<not> contains (BSL # ''resumeSubHeadingList'') raw
        \<and> \<not> contains (BSL # ''resumeItemList'') raw \<longrightarrow> list_macros_replaced raw = raw)"
proof -
  have 1: "match_item kw u = Some (x, rest) \<longleftrightarrow> u = t \<and> CHR ''}'' \<notin> set x"
    unfolding assms(3) by (rule match_item_iff)
  have 2: "has_item kw s \<longleftrightarrow> (\<exists>p a r. s = p @ BSL # kw @ ''{'' @ a @ ''}'' @ r)"
    by (rule has_item_iff)
  have 3: "\<not> has_item kw s \<longrightarrow> sub_item kw s dk = (s, dk)"
    by (rule impI) (rule sub_item_unchanged)
  have 4: "CHR ''}'' \<notin> set x \<and> (\<forall>k<length pre. match_item kw (drop k (pre @ t)) = None) \<longrightarrow>
        sub_item kw (pre @ t) dk =
          (pre @ (if dk = 0 then BSL # ''begin{itemize}'' @ ''\<newline>'' else []) @ BSL # ''item '' @ x
             @ fst (sub_item kw rest dk'),
           snd (sub_item kw rest dk'))"
    unfolding assms(3) assms(4) by (rule impI, erule conjE) (rule sub_item_leftmost)
  have 5: "process_line d raw =
        sub_item ''resumeSubItem'' (fst (sub_item ''resumeItem'' ln dm))
          (snd (sub_item ''resumeItem'' ln dm))"
    unfolding assms(2) assms(1) by (rule process_line_eq)
  have 6: "length (fst (rewrite_lines ls d)) = length ls"
    by (rule rewrite_lines_length)
  have 7: "j < length ls \<longrightarrow>
        fst (rewrite_lines ls d) ! j
          = fst (process_line (snd (rewrite_lines (take j ls) d)) (ls ! j))
        \<and> snd (rewrite_lines (take (Suc j) ls) d)
          = snd (process_line (snd (rewrite_lines (take j ls) d)) (ls ! j))"
    by (rule impI, rule conjI) (erule rewrite_lines_nth)+
  have 8: "snd (rewrite_lines (take 0 ls) d) = d" by simp
  have 9: "replace_invocations s =
        sub_subheading (join ''\<newline>'' (fst (rewrite_lines (splitlines s) 0)) @ ''\<newline>'')"
    by (rule replace_invocations_eq)
  have 10: "\<not> contains (BSL # ''resumeSubheading{'') s \<longrightarrow> sub_subheading s = s"
    by (rule impI) (rule sub_subheading_unchanged)
  have 11: "CHR ''}'' \<notin> set x \<and> CHR ''}'' \<notin> set y \<longrightarrow>
        sub_item kw (BSL # kw @ ''{'' @ x @ ''}'' @ BSL # kw @ ''{'' @ y @ ''}'') 0 =
          (BSL # ''begin{itemize}'' @ ''\<newline>'' @ BSL # ''item '' @ x @ BSL # ''item '' @ y, 1)"
    by (rule impI, erule conjE) (rule sub_item_twice)
  have 12: "replace_invocations (BSL # ''resumeItem{X}'')
       = BSL # ''begin{itemize}\<newline>'' @ BSL # ''item X\<newline>''"
    by code_simp
  have 13: "replace_invocations (BSL # ''resumeItem{a}\<newline>'' @ BSL # ''resumeItem{b}'')
       = BSL # ''begin{itemize}\<newline>'' @ BSL # ''item a\<newline>'' @ BSL # ''item b\<newline>''"
    by code_simp
  have 14: "replace_invocations (BSL # ''resumeSubItem{a}\<newline>'' @ BSL # ''resumeItem{b}'')
       = BSL # ''begin{itemize}\<newline>'' @ BSL # ''item a\<newline>'' @ BSL # ''item b\<newline>''"
    by code_simp
  have 15: "\<not> contains (BSL # ''resumeSubHeadingList'') raw
        \<and> \<not> contains (BSL # ''resumeItemList'') raw \<longrightarrow> list_macros_replaced raw = raw"
    by (rule impI, erule conjE) (rule list_macros_replaced_unchanged)
  show ?thesis
    by (intro conjI) (rule 1 2 3 4 5 6 7 8 9 10 11 12 13 14 15)+
qed


theorem resume_item_rewrite_witness:
  "match_item ''resumeItem'' (BSL # ''resumeItem{one} and more'') = Some (''one'', '' and more'')
   \<and> sub_item ''resumeItem'' ''plain text'' 0 = (''plain text'', 0)
   \<and> sub_item ''resumeItem'' (''a '' @ BSL # ''resumeItem{one} and more'') 0 =
       (''a '' @ BSL # ''begin{itemize}\<newline>'' @ BSL # ''item one and more'', 1)
   \<and> process_line 0 (''a '' @ BSL # ''resumeItem{one} and more'') =
       (''a '' @ BSL # ''begin{itemize}\<newline>'' @ BSL # ''item one and more'', 1)
   \<and> fst (rewrite_lines [BSL # ''resumeItem{a}'', BSL # ''resumeItem{b}''] 0) ! 1 = BSL # ''item b''
   \<and> snd (rewrite_lines (take (Suc 1) [BSL # ''resumeItem{a}'', BSL # ''resumeItem{b}'']) 0) = 1
   \<and> sub_subheading ''plain text'' = ''plain text''
   \<and> sub_item ''resumeItem'' (BSL # ''resumeItem{one}'' @ BSL # ''resumeItem{two}'') 0 =
       (BSL # ''begin{itemize}\<newline>'' @ BSL # ''item one'' @ BSL # ''item two'', 1)
   \<and> list_macros_replaced (''a '' @ BSL # ''resumeItem{one} and more'')
       = ''a '' @ BSL # ''resumeItem{one} and more''"
proof -
  define raw where "raw = ''a '' @ BSL # ''resumeItem{one} and more''"
  define ls where "ls = [BSL # ''resumeItem{a}'', BSL # ''resumeItem{b}'']"
  have a1: "raw = list_macros_replaced raw" unfolding raw_def by code_simp
  have a2: "0 = depth_after_markers 0 raw" unfolding raw_def by code_simp
  have a4: "(1::int) = (if (0::int) = 0 then 1 else 0)" by simp
  note T = resume_item_rewrite [OF a1 a2 refl a4, where kw = "''resumeItem''" and x = "''one''"
      and rest = "'' and more''" and u = "BSL # ''resumeItem{one} and more''"
      and s = "''plain text''" and pre = "''a ''" and ls = ls and j = 1 and y = "''two''"]
  have x: "CHR ''}'' \<notin> set ''one''" and y: "CHR ''}'' \<notin> set ''two''" by simp_all
  have h1: "BSL # ''resumeItem{one} and more''
      = BSL # ''resumeItem'' @ ''{'' @ ''one'' @ ''}'' @ '' and more''" by simp
  have h3: "\<not> has_item ''resumeItem'' ''plain text''" by code_simp
  have h4: "\<forall>k<length ''a ''. match_item ''resumeItem''
      (drop k (''a '' @ BSL # ''resumeItem'' @ ''{'' @ ''one'' @ ''}'' @ '' and more'')) = None"
  proof (intro allI impI)
    fix k :: nat
    assume "k < length ''a ''"
    then have "k = 0 \<or> k = 1" by auto
    then show "match_item ''resumeItem''
      (drop k (''a '' @ BSL # ''resumeItem'' @ ''{'' @ ''one'' @ ''}'' @ '' and more'')) = None"
      by (auto simp: match_item_def starts_with_def)
  qed
  have h7: "1 < length ls" by (simp add: ls_def)
  have h10: "\<not> contains (BSL # ''resumeSubheading{'') ''plain text''" by code_simp
  have r: "sub_item ''resumeItem'' '' and more'' 1 = ('' and more'', 1)" by code_simp
  have c1: "match_item ''resumeItem'' (BSL # ''resumeItem{one} and more'')
      = Some (''one'', '' and more'')"
    using T [THEN conjunct1] h1 x by blast
  have c3: "sub_item ''resumeItem'' ''plain text'' 0 = (''plain text'', 0)"
    using T [THEN conjunct2, THEN conjunct2, THEN conjunct1] h3 by (rule mp)
  have "sub_item ''resumeItem''
      (''a '' @ BSL # ''resumeItem'' @ ''{'' @ ''one'' @ ''}'' @ '' and more'') 0 =
          (''a '' @ (if (0::int) = 0 then BSL # ''begin{itemize}'' @ ''\<newline>'' else [])
             @ BSL # ''item '' @ ''one'' @ fst (sub_item ''resumeItem'' '' and more'' 1),
           snd (sub_item ''resumeItem'' '' and more'' 1))"
    using T [THEN conjunct2, THEN conjunct2, THEN conjunct2, THEN conjunct1] x h4 by blast
  then have c4: "sub_item ''resumeItem'' (''a '' @ BSL # ''resumeItem{one} and more'') 0 =
       (''a '' @ BSL # ''begin{itemize}\<newline>'' @ BSL # ''item one and more'', 1)"
    unfolding r by simp
  have e5: "sub_item ''resumeSubItem'' (fst (sub_item ''resumeItem'' raw 0))
          (snd (sub_item ''resumeItem'' raw 0))
      = (''a '' @ BSL # ''begin{itemize}\<newline>'' @ BSL # ''item one and more'', 1)"
    unfolding raw_def by code_simp
  have "process_line 0 raw = (''a '' @ BSL # ''begin{itemize}\<newline>'' @ BSL # ''item one and more'', 1)"
    using T [THEN conjunct2, THEN conjunct2, THEN conjunct2, THEN conjunct2, THEN conjunct1]
    unfolding e5 .
  then have c5: "process_line 0 (''a '' @ BSL # ''resumeItem{one} and more'') =
       (''a '' @ BSL # ''begin{itemize}\<newline>'' @ BSL # ''item one and more'', 1)"
    unfolding raw_def .
  have e7: "fst (process_line (snd (rewrite_lines (take 1 ls) 0)) (ls ! 1)) = BSL # ''item b''"
    "snd (process_line (snd (rewrite_lines (take 1 ls) 0)) (ls ! 1)) = 1"
    unfolding ls_def by code_simp+
  from T [THEN conjunct2, THEN conjunct2, THEN conjunct2, THEN conjunct2, THEN conjunct2,
      THEN conjunct2, THEN conjunct1] h7
  have "fst (rewrite_lines ls 0) ! 1
          = fst (process_line (snd (rewrite_lines (take 1 ls) 0)) (ls ! 1))
        \<and> snd (rewrite_lines (take (Suc 1) ls) 0)
          = snd (process_line (snd (rewrite_lines (take 1 ls) 0)) (ls ! 1))"
    by (rule mp)
  then have f: "fst (rewrite_lines ls 0) ! 1 = BSL # ''item b''
      \<and> snd (rewrite_lines (take (Suc 1) ls) 0) = 1"
    unfolding e7 .
  from f have c7: "fst (rewrite_lines [BSL # ''resumeItem{a}'', BSL # ''resumeItem{b}''] 0) ! 1
        = BSL # ''item b''"
    unfolding ls_def by (rule conjunct1)
  from f have c7': "snd (rewrite_lines (take (Suc 1)
        [BSL # ''resumeItem{a}'', BSL # ''resumeItem{b}'']) 0) = 1"
    unfolding ls_def by (rule conjunct2)
  have c10: "sub_subheading ''plain text'' = ''plain text''"
    using T [THEN conjunct2, THEN conjunct2, THEN conjunct2, THEN conjunct2, THEN conjunct2,
      THEN conjunct2, THEN conjunct2, THEN conjunct2, THEN conjunct2, THEN conjunct1] h10
    by (rule mp)
  have "sub_item ''resumeItem''
      (BSL # ''resumeItem'' @ ''{'' @ ''one'' @ ''}'' @ BSL # ''resumeItem'' @ ''{'' @ ''two'' @ ''}'') 0 =
          (BSL # ''begin{itemize}'' @ ''\<newline>'' @ BSL # ''item '' @ ''one'' @ BSL # ''item '' @ ''two'', 1)"
    using T [THEN conjunct2, THEN conjunct2, THEN conjunct2, THEN conjunct2, THEN conjunct2,
      THEN conjunct2, THEN conjunct2, THEN conjunct2, THEN conjunct2, THEN conjunct2,
      THEN conjunct1] x y by blast
  then have c11: "sub_item ''resumeItem'' (BSL # ''resumeItem{one}'' @ BSL # ''resumeItem{two}'') 0 =
       (BSL # ''begin{itemize}\<newline>'' @ BSL # ''item one'' @ BSL # ''item two'', 1)"
    by simp
  have h15: "\<not> contains (BSL # ''resumeSubHeadingList'') raw"
    "\<not> contains (BSL # ''resumeItemList'') raw"
    unfolding raw_def by code_simp+
  have "list_macros_replaced raw = raw"
    using T [THEN conjunct2, THEN conjunct2, THEN conjunct2, THEN conjunct2, THEN conjunct2, THEN conjunct2, THEN conjunct2, THEN conjunct2, THEN conjunct2, THEN conjunct2, THEN conjunct2, THEN conjunct2, THEN conjunct2, THEN conjunct2] h15 by blast
  then have c15: "list_macros_replaced (''a '' @ BSL # ''resumeItem{one} and more'')
       = ''a '' @ BSL # ''resumeItem{one} and more''"
    unfolding raw_def .
  show ?thesis by (intro conjI) (rule c1 c3 c4 c5 c7 c7' c10 c11 c15)+
qed

text \<open>
  C7, as the code has it. The counter counts the begins and ends of \<^verbatim>\<open>itemize\<close> only. A
  begin of \<^verbatim>\<open>enumerate\<close>, the other list environment that the balancer and the list-item
  guarantor track, leaves it at 0, so that an item macro inside an open \<^verbatim>\<open>enumerate\<close> gets
  a synthesized begin of \<^verbatim>\<open>itemize\<close>.
\<close>

theorem itemize_depth_ignores_enumerate:
  "has_list_begin (BSL # ''begin{enumerate}'')
   \<and> ''enumerate'' \<in> set BALANCE_ENVS
   \<and> snd (process_line 0 (BSL # ''begin{enumerate}'')) = 0
   \<and> snd (rewrite_lines (splitlines (BSL # ''begin{enumerate}\<newline>'' @ BSL # ''begin{enumerate}'')) 0) = 0
   \<and> replace_invocations (BSL # ''begin{enumerate}\<newline>'' @ BSL # ''resumeItem{a}'')
       = BSL # ''begin{enumerate}\<newline>'' @ BSL # ''begin{itemize}\<newline>'' @ BSL # ''item a\<newline>''"
  by code_simp

text \<open>
  C7, amended. In \<open>replace_invocations\<close> the counter \<^verbatim>\<open>itemize_depth\<close> starts at 0 and is
  not negative after any number of lines of any text. After line \<open>j\<close> it is what
  \<open>process_line\<close> makes of the counter left by the lines before. On a line, with its list
  macros replaced by begins and ends of \<^verbatim>\<open>itemize\<close>, the counter first goes up by 1 for
  every begin of \<^verbatim>\<open>itemize\<close> on the line (a begin of another environment, \<^verbatim>\<open>enumerate\<close> too,
  is not counted), then down by 1 for every end of \<^verbatim>\<open>itemize\<close> met while it is positive,
  and then from 0 to 1 when the line has an occurrence of an item macro, which then gets
  a synthesized begin. Each update, and each loop made of them, keeps a counter that is
  not negative so.
\<close>

theorem itemize_depth_never_negative:
  assumes "ln = list_macros_replaced raw" and "dm = depth_after_markers d ln"
    and "di = (if dm = 0 \<and> has_item ''resumeItem'' ln then 1 else dm)"
  shows "replace_invocations s =
        sub_subheading (join ''\<newline>'' (fst (rewrite_lines (splitlines s) 0)) @ ''\<newline>'')
   \<and> snd (rewrite_lines (take 0 ls) d) = d
   \<and> (j < length ls \<longrightarrow>
        snd (rewrite_lines (take (Suc j) ls) d)
          = snd (process_line (snd (rewrite_lines (take j ls) d)) (ls ! j)))
   \<and> 0 \<le> snd (rewrite_lines (take m (splitlines s)) 0)
   \<and> dm = fold depth_on_end (finditer_env ''end'' ln)
            (fold depth_on_begin (finditer_env ''begin'' ln) d)
   \<and> snd (process_line d raw) =
        (if di = 0 \<and> has_item ''resumeSubItem'' (fst (sub_item ''resumeItem'' ln dm)) then 1
         else di)
   \<and> fold depth_on_begin names d = d + int (count_list names ''itemize'')
   \<and> fold depth_on_end names d =
        (if d \<le> 0 then d else max 0 (d - int (count_list names ''itemize'')))
   \<and> snd (sub_item kw l d) = (if d = 0 \<and> has_item kw l then 1 else d)
   \<and> (has_item kw l \<longleftrightarrow> (\<exists>p a r. l = p @ BSL # kw @ ''{'' @ a @ ''}'' @ r))
   \<and> (0 \<le> d \<longrightarrow>
        0 \<le> fold depth_on_begin names d \<and> 0 \<le> fold depth_on_end names d
        \<and> 0 \<le> snd (repl_item d x) \<and> 0 \<le> snd (sub_item kw l d)
        \<and> 0 \<le> snd (process_line d raw) \<and> 0 \<le> snd (rewrite_lines ls d))
   \<and> depth_on_begin ''itemize'' d = d + 1
   \<and> depth_on_end ''itemize'' d = (if 0 < d then d - 1 else d)
   \<and> (name \<noteq> ''itemize'' \<longrightarrow> depth_on_begin name d = d \<and> depth_on_end name d = d)
   \<and> snd (repl_item 0 x) = 1
   \<and> (d \<noteq> 0 \<longrightarrow> snd (repl_item d x) = d)
   \<and> (\<not> contains (BSL # ''resumeSubHeadingList'') raw
        \<and> \<not> contains (BSL # ''resumeItemList'') raw \<longrightarrow> list_macros_replaced raw = raw)
   \<and> list_macros_replaced
        (BSL # ''resumeSubHeadingListStart'' @ BSL # ''resumeSubHeadingListEnd''
         @ BSL # ''resumeItemListStart'' @ BSL # ''resumeItemListEnd'')
      = BSL # ''begin{itemize}'' @ BSL # ''end{itemize}''
        @ BSL # ''begin{itemize}'' @ BSL # ''end{itemize}''"
proof -
  have 1: "replace_invocations s =
        sub_subheading (join ''\<newline>'' (fst (rewrite_lines (splitlines s) 0)) @ ''\<newline>'')"
    by (rule replace_invocations_eq)
  have 2: "snd (rewrite_lines (take 0 ls) d) = d" by simp
  have 3: "j < length ls \<longrightarrow>
        snd (rewrite_lines (take (Suc j) ls) d)
          = snd (process_line (snd (rewrite_lines (take j ls) d)) (ls ! j))"
    by (rule impI) (erule rewrite_lines_nth)
  have 4: "0 \<le> snd (rewrite_lines (take m (splitlines s)) 0)"
    by (rule rewrite_lines_nonneg) simp
  have 5: "dm = fold depth_on_end (finditer_env ''end'' ln)
            (fold depth_on_begin (finditer_env ''begin'' ln) d)"
    unfolding assms(2) by (rule depth_after_markers_fold)
  have 6: "snd (process_line d raw) =
        (if di = 0 \<and> has_item ''resumeSubItem'' (fst (sub_item ''resumeItem'' ln dm)) then 1
         else di)"
    unfolding assms(3) assms(2) assms(1) process_line_eq sub_item_depth
    by (rule refl)
  have 7: "fold depth_on_begin names d = d + int (count_list names ''itemize'')"
    by (rule fold_depth_on_begin_count)
  have 8: "fold depth_on_end names d =
        (if d \<le> 0 then d else max 0 (d - int (count_list names ''itemize'')))"
    by (rule fold_depth_on_end_count)
  have 9: "snd (sub_item kw l d) = (if d = 0 \<and> has_item kw l then 1 else d)"
    by (rule sub_item_depth)
  have 10: "has_item kw l \<longleftrightarrow> (\<exists>p a r. l = p @ BSL # kw @ ''{'' @ a @ ''}'' @ r)"
    by (rule has_item_iff)
  have 11: "0 \<le> d \<longrightarrow>
        0 \<le> fold depth_on_begin names d \<and> 0 \<le> fold depth_on_end names d
        \<and> 0 \<le> snd (repl_item d x) \<and> 0 \<le> snd (sub_item kw l d)
        \<and> 0 \<le> snd (process_line d raw) \<and> 0 \<le> snd (rewrite_lines ls d)"
  proof
    assume d: "0 \<le> d"
    show "0 \<le> fold depth_on_begin names d \<and> 0 \<le> fold depth_on_end names d
        \<and> 0 \<le> snd (repl_item d x) \<and> 0 \<le> snd (sub_item kw l d)
        \<and> 0 \<le> snd (process_line d raw) \<and> 0 \<le> snd (rewrite_lines ls d)"
      by (intro conjI fold_depth_on_begin_nonneg fold_depth_on_end_nonneg repl_item_nonneg
          sub_item_nonneg process_line_nonneg rewrite_lines_nonneg d)
  qed
  have 12: "depth_on_begin ''itemize'' d = d + 1"
    "depth_on_end ''itemize'' d = (if 0 < d then d - 1 else d)"
    "name \<noteq> ''itemize'' \<longrightarrow> depth_on_begin name d = d \<and> depth_on_end name d = d"
    "snd (repl_item 0 x) = 1" "d \<noteq> 0 \<longrightarrow> snd (repl_item d x) = d"
    by (simp_all add: depth_on_begin_def depth_on_end_def repl_item_def)
  have 13: "\<not> contains (BSL # ''resumeSubHeadingList'') raw
        \<and> \<not> contains (BSL # ''resumeItemList'') raw \<longrightarrow> list_macros_replaced raw = raw"
    by (rule impI, erule conjE) (rule list_macros_replaced_unchanged)
  have 14: "list_macros_replaced
        (BSL # ''resumeSubHeadingListStart'' @ BSL # ''resumeSubHeadingListEnd''
         @ BSL # ''resumeItemListStart'' @ BSL # ''resumeItemListEnd'')
      = BSL # ''begin{itemize}'' @ BSL # ''end{itemize}''
        @ BSL # ''begin{itemize}'' @ BSL # ''end{itemize}''"
    by code_simp
  show ?thesis by (intro conjI) (rule 1 2 3 4 5 6 7 8 9 10 11 12 13 14)+
qed

theorem itemize_depth_never_negative_witness:
  "snd (rewrite_lines (take (Suc 1)
          [BSL # ''begin{itemize}'', BSL # ''end{itemize}'' @ BSL # ''end{itemize}'']) 0) = 0
   \<and> snd (process_line 1 (BSL # ''end{itemize}'' @ BSL # ''end{itemize}'')) = 0
   \<and> snd (process_line 0 (BSL # ''resumeItemListStart'' @ BSL # ''begin{itemize}'')) = 2
   \<and> snd (process_line 0 (BSL # ''resumeItem{a}'' @ BSL # ''resumeItem{b}'')) = 1
   \<and> 0 \<le> fold depth_on_end [''itemize'', ''itemize''] 1
   \<and> 0 \<le> snd (process_line 1 (BSL # ''end{itemize}'' @ BSL # ''end{itemize}''))
   \<and> depth_on_begin ''enumerate'' 1 = 1
   \<and> depth_on_end ''enumerate'' 1 = 1
   \<and> snd (repl_item 1 ''a'') = 1
   \<and> list_macros_replaced (BSL # ''end{itemize}'' @ BSL # ''end{itemize}'')
       = BSL # ''end{itemize}'' @ BSL # ''end{itemize}''"
proof -
  define raw where "raw = BSL # ''end{itemize}'' @ BSL # ''end{itemize}''"
  define ls where "ls = [BSL # ''begin{itemize}'', raw]"
  define raw2 where "raw2 = BSL # ''resumeItemListStart'' @ BSL # ''begin{itemize}''"
  define ln2 where "ln2 = BSL # ''begin{itemize}'' @ BSL # ''begin{itemize}''"
  define raw3 where "raw3 = BSL # ''resumeItem{a}'' @ BSL # ''resumeItem{b}''"
  have a1: "raw = list_macros_replaced raw" unfolding raw_def by code_simp
  have a2: "0 = depth_after_markers 1 raw" unfolding raw_def by code_simp
  have a3: "(0::int) = (if (0::int) = 0 \<and> has_item ''resumeItem'' raw then 1 else 0)"
    unfolding raw_def by code_simp
  have a2': "0 = depth_after_markers 0 raw" unfolding raw_def by code_simp
  have b1: "ln2 = list_macros_replaced raw2" unfolding raw2_def ln2_def by code_simp
  have b2: "2 = depth_after_markers 0 ln2" unfolding ln2_def by code_simp
  have b3: "(2::int) = (if (2::int) = 0 \<and> has_item ''resumeItem'' ln2 then 1 else 2)" by simp
  have c1: "raw3 = list_macros_replaced raw3" unfolding raw3_def by code_simp
  have c2: "0 = depth_after_markers 0 raw3" unfolding raw3_def by code_simp
  have c3: "(1::int) = (if (0::int) = 0 \<and> has_item ''resumeItem'' raw3 then 1 else 0)"
    unfolding raw3_def by code_simp
  note T = itemize_depth_never_negative [OF a1 a2 a3, where names = "[''itemize'', ''itemize'']"
      and name = "''enumerate''" and x = "''a''"]
  note T0 = itemize_depth_never_negative [OF a1 a2' refl, where ls = ls and j = 1]
  note T2 = itemize_depth_never_negative [OF b1 b2 b3]
  note T3 = itemize_depth_never_negative [OF c1 c2 c3]
  have h3: "1 < length ls" by (simp add: ls_def)
  have p: "(0::int) \<le> 1" and q: "''enumerate'' \<noteq> ''itemize''" and n: "(1::int) \<noteq> 0"
    by simp_all
  have e3: "snd (process_line (snd (rewrite_lines (take 1 ls) 0)) (ls ! 1)) = 0"
    unfolding ls_def raw_def by code_simp
  from T0 [THEN conjunct2, THEN conjunct2, THEN conjunct1] h3
  have "snd (rewrite_lines (take (Suc 1) ls) 0)
          = snd (process_line (snd (rewrite_lines (take 1 ls) 0)) (ls ! 1))"
    by (rule mp)
  then have r1: "snd (rewrite_lines (take (Suc 1)
          [BSL # ''begin{itemize}'', BSL # ''end{itemize}'' @ BSL # ''end{itemize}'']) 0) = 0"
    unfolding e3 unfolding ls_def raw_def .
  have e6: "has_item ''resumeSubItem'' (fst (sub_item ''resumeItem'' raw 0)) = False"
    unfolding raw_def by code_simp
  have "snd (process_line 1 raw) = 0"
    using T [THEN conjunct2, THEN conjunct2, THEN conjunct2, THEN conjunct2, THEN conjunct2, THEN conjunct1] unfolding e6 by simp
  then have r2: "snd (process_line 1 (BSL # ''end{itemize}'' @ BSL # ''end{itemize}'')) = 0"
    unfolding raw_def .
  have "snd (process_line 0 raw2) = 2"
    using T2 [THEN conjunct2, THEN conjunct2, THEN conjunct2, THEN conjunct2, THEN conjunct2, THEN conjunct1] by simp
  then have r3: "snd (process_line 0 (BSL # ''resumeItemListStart'' @ BSL # ''begin{itemize}'')) = 2"
    unfolding raw2_def .
  have "snd (process_line 0 raw3) = 1"
    using T3 [THEN conjunct2, THEN conjunct2, THEN conjunct2, THEN conjunct2, THEN conjunct2, THEN conjunct1] by simp
  then have r4: "snd (process_line 0 (BSL # ''resumeItem{a}'' @ BSL # ''resumeItem{b}'')) = 1"
    unfolding raw3_def .
  from T [THEN conjunct2, THEN conjunct2, THEN conjunct2, THEN conjunct2, THEN conjunct2, THEN conjunct2, THEN conjunct2, THEN conjunct2, THEN conjunct2, THEN conjunct2, THEN conjunct1] p
  have g: "0 \<le> fold depth_on_begin [''itemize'', ''itemize''] 1
        \<and> 0 \<le> fold depth_on_end [''itemize'', ''itemize''] 1
        \<and> 0 \<le> snd (repl_item 1 ''a'') \<and> 0 \<le> snd (sub_item kw l 1)
        \<and> 0 \<le> snd (process_line 1 raw) \<and> 0 \<le> snd (rewrite_lines ls' 1)" for kw l ls'
    by (rule mp)
  from g have r5: "0 \<le> fold depth_on_end [''itemize'', ''itemize''] 1" by (rule conjunct2 [THEN conjunct1])
  from g have "0 \<le> snd (process_line 1 raw)"
    by (rule conjunct2 [THEN conjunct2, THEN conjunct2, THEN conjunct2, THEN conjunct1])
  then have r6: "0 \<le> snd (process_line 1 (BSL # ''end{itemize}'' @ BSL # ''end{itemize}''))"
    unfolding raw_def .
  from T [THEN conjunct2, THEN conjunct2, THEN conjunct2, THEN conjunct2, THEN conjunct2, THEN conjunct2, THEN conjunct2, THEN conjunct2, THEN conjunct2, THEN conjunct2, THEN conjunct2, THEN conjunct2, THEN conjunct2, THEN conjunct1] q
  have "depth_on_begin ''enumerate'' 1 = 1 \<and> depth_on_end ''enumerate'' 1 = 1" by (rule mp)
  then have r7: "depth_on_begin ''enumerate'' 1 = 1" and r8: "depth_on_end ''enumerate'' 1 = 1"
    by simp_all
  from T [THEN conjunct2, THEN conjunct2, THEN conjunct2, THEN conjunct2, THEN conjunct2, THEN conjunct2, THEN conjunct2, THEN conjunct2, THEN conjunct2, THEN conjunct2, THEN conjunct2, THEN conjunct2, THEN conjunct2, THEN conjunct2, THEN conjunct2, THEN conjunct1] n
  have r9: "snd (repl_item 1 ''a'') = 1" by (rule mp)
  have h17: "\<not> contains (BSL # ''resumeSubHeadingList'') raw"
    "\<not> contains (BSL # ''resumeItemList'') raw"
    unfolding raw_def by code_simp+
  have "list_macros_replaced raw = raw"
    using T [THEN conjunct2, THEN conjunct2, THEN conjunct2, THEN conjunct2, THEN conjunct2, THEN conjunct2, THEN conjunct2, THEN conjunct2, THEN conjunct2, THEN conjunct2, THEN conjunct2, THEN conjunct2, THEN conjunct2, THEN conjunct2, THEN conjunct2, THEN conjunct2, THEN conjunct1] h17 by blast
  then have r10: "list_macros_replaced (BSL # ''end{itemize}'' @ BSL # ''end{itemize}'')
       = BSL # ''end{itemize}'' @ BSL # ''end{itemize}''"
    unfolding raw_def .
  show ?thesis by (intro conjI) (rule r1 r2 r3 r4 r5 r6 r7 r8 r9 r10)+
qed


section \<open>Properties of the definition stripper\<close>

lemma cmd_match_backslash: "cmd_match (c # cs) \<noteq> None \<Longrightarrow> c = BSL"
  by (simp add: cmd_match_def split: if_splits)

lemma cmd_match_pos: "cmd_match s = Some n \<Longrightarrow> 0 < n"
  by (auto simp: cmd_match_def split: list.splits if_splits)

lemma cmd_match_nonempty: "cmd_match s = Some n \<Longrightarrow> s \<noteq> []"
  by (auto simp: cmd_match_def)

lemma matches_in_append: "BSL \<notin> set xs \<Longrightarrow> matches_in (xs @ ys) = matches_in ys"
proof (induction xs)
  case Nil
  then show ?case by simp
next
  case (Cons c xs)
  then have "c \<noteq> BSL" by auto
  then have "cmd_match (c # xs @ ys) = None" using cmd_match_backslash by blast
  with Cons show ?case by simp
qed

lemma matches_in_tl: "matches_in (drop 1 s) \<le> matches_in s"
  by (cases s) simp_all

lemma matches_in_drop: "matches_in (drop k s) \<le> matches_in s"
proof (induction k arbitrary: s)
  case 0
  then show ?case by simp
next
  case (Suc k)
  show ?case
  proof (cases s)
    case Nil
    then show ?thesis by simp
  next
    case (Cons c cs)
    with Suc [of cs] show ?thesis by simp
  qed
qed

lemma matches_in_drop_mono: "i \<le> j \<Longrightarrow> matches_in (drop j s) \<le> matches_in (drop i s)"
proof -
  assume "i \<le> j"
  then have "drop j s = drop (j - i) (drop i s)" by simp
  then show ?thesis by (simp only: matches_in_drop)
qed

lemma matches_in_step:
  assumes "cmd_match (drop a s) = Some n"
  shows "matches_in (drop (a + 1) s) < matches_in (drop a s)"
proof -
  from assms have "drop a s \<noteq> []" by (rule cmd_match_nonempty)
  then obtain c cs where d: "drop a s = c # cs" by (cases "drop a s") auto
  have "drop (a + 1) s = drop 1 (drop a s)" by simp
  then have "drop (a + 1) s = cs" by (simp add: d)
  with assms d show ?thesis by simp
qed

lemma matches_in_after:
  assumes "cmd_match (drop a s) = Some n" and "a + 1 \<le> e"
  shows "matches_in (drop e s) < matches_in (drop a s)"
  using matches_in_drop_mono [OF assms(2), of s] matches_in_step [OF assms(1)] by linarith

lemma cmd_search_Some:
  "cmd_search src i = Some (a, b) \<Longrightarrow>
   i \<le> a \<and> (\<exists>n. cmd_match (drop a src) = Some n \<and> b = a + n)"
proof (induction src i rule: cmd_search.induct)
  case (1 src i)
  show ?case
  proof (cases "i < length src")
    case False
    with "1.prems" show ?thesis by (simp add: cmd_search.simps)
  next
    case True
    show ?thesis
    proof (cases "cmd_match (drop i src)")
      case None
      with True "1.prems" have "cmd_search src (i + 1) = Some (a, b)"
        by (subst (asm) cmd_search.simps) simp
      from "1.IH" [OF True None this] show ?thesis by auto
    next
      case (Some n)
      with True "1.prems" have "a = i" "b = i + n"
        by (subst (asm) cmd_search.simps, simp)+
      with Some show ?thesis by simp
    qed
  qed
qed


lemma skip_while_ge: "i \<le> skip_while P src i"
proof (induction P src i rule: skip_while.induct)
  case (1 P src i)
  show ?case
  proof (cases "i < length src \<and> P (src ! i)")
    case True
    with 1 have "i + 1 \<le> skip_while P src (i + 1)" by simp
    with True show ?thesis by (subst skip_while.simps) simp
  next
    case False
    then show ?thesis by (subst skip_while.simps) auto
  qed
qed

lemma skip_balanced_loop_ge: "j \<le> skip_balanced_loop src open_ch close_ch j depth"
proof (induction src open_ch close_ch j depth rule: skip_balanced_loop.induct)
  case (1 src open_ch close_ch j depth)
  show ?case
  proof (cases "j < length src")
    case False
    then show ?thesis by (subst skip_balanced_loop.simps) simp
  next
    case True
    note IH = "1.IH" [OF True refl]
    show ?thesis
    proof (cases "src ! j = open_ch")
      case o: True
      from IH(1) [OF o] show ?thesis
        using True o by (subst skip_balanced_loop.simps) (simp add: Let_def)
    next
      case o: False
      show ?thesis
      proof (cases "src ! j = close_ch")
        case c: True
        show ?thesis
        proof (cases "depth - 1 = 0")
          case True
          then show ?thesis
            using \<open>j < length src\<close> o c by (subst skip_balanced_loop.simps) (simp add: Let_def)
        next
          case False
          from IH(2) [OF o c False] show ?thesis
            using True o c False by (subst skip_balanced_loop.simps) (simp add: Let_def)
        qed
      next
        case c: False
        from IH(3) [OF o c] show ?thesis
          using True o c by (subst skip_balanced_loop.simps) (simp add: Let_def)
      qed
    qed
  qed
qed

lemma skip_balanced_ge: "idx \<le> skip_balanced src idx open_ch close_ch"
  by (simp add: skip_balanced_def skip_balanced_loop_ge)

lemma header_end_ge: "i0 \<le> header_end src i0"
proof -
  define i1 where "i1 = skip_while isspace src i0"
  define i2 where "i2 = (if i1 < length src \<and> src ! i1 = CHR ''{'' then
                 skip_balanced src i1 CHR ''{'' CHR ''}''
               else if i1 < length src \<and> src ! i1 = BSL then
                 skip_while (\<lambda>c. c \<in> set '' #0123456789'') src
                   (skip_while (\<lambda>c. isalpha c \<or> c = CHR ''@'') src (i1 + 1))
               else i1)"
  define i3 where "i3 = skip_while isspace src i2"
  define i4 where "i4 = (if i3 < length src \<and> src ! i3 = CHR ''['' then
                 skip_balanced src i3 CHR ''['' CHR '']'' else i3)"
  have h: "header_end src i0 = skip_while isspace src i4"
    unfolding header_end_def Let_def i4_def i3_def i2_def i1_def ..
  have 1: "i0 \<le> i1" unfolding i1_def by (rule skip_while_ge)
  have "i1 + 1 \<le> skip_while (\<lambda>c. c \<in> set '' #0123456789'') src
                   (skip_while (\<lambda>c. isalpha c \<or> c = CHR ''@'') src (i1 + 1))"
    by (rule le_trans [OF skip_while_ge skip_while_ge])
  then have 2: "i1 \<le> i2"
    unfolding i2_def using skip_balanced_ge [of i1 src "CHR ''{''" "CHR ''}''"] by auto
  have 3: "i2 \<le> i3" unfolding i3_def by (rule skip_while_ge)
  have 4: "i3 \<le> i4"
    unfolding i4_def using skip_balanced_ge [of i3 src "CHR ''[''" "CHR '']''"] by auto
  have 5: "i4 \<le> skip_while isspace src i4" by (rule skip_while_ge)
  from 1 2 3 4 5 show ?thesis unfolding h by linarith
qed

lemma find_char_Some:
  assumes "find_char c src i = Some j"
  shows "i \<le> j \<and> j < length src"
proof -
  define r where "r = dropWhile (\<lambda>x. x \<noteq> c) (drop i src)"
  from assms have r: "r \<noteq> []" and j: "j = length src - length r"
    by (auto simp: find_char_def Let_def r_def split: if_splits)
  have "length r \<le> length (drop i src)" unfolding r_def by (rule length_dropWhile_le)
  then have le: "length r \<le> length src - i" by simp
  from r have pos: "0 < length r" by simp
  from le pos j show ?thesis by linarith
qed

lemma line_end_from_gt: "p < length src \<Longrightarrow> p < line_end_from src p"
  by (auto simp: line_end_from_def split: option.splits dest: find_char_Some)

lemma tl_MARKER_no_backslash: "BSL \<notin> set (drop 1 MARKER)"
  by code_simp

lemma matches_in_strip_span:
  assumes "start < length src"
  shows "matches_in (drop (start + 1) (strip_span src start e)) = matches_in (drop e src)"
proof -
  have "length (take start src) = start" using assms by simp
  then have "drop (start + 1) (strip_span src start e) = drop 1 (MARKER @ drop e src)"
    unfolding strip_span_def by (simp add: drop_append del: drop_Suc_Cons)
  also have "\<dots> = drop 1 MARKER @ drop e src" by (simp add: MARKER_def)
  finally have "drop (start + 1) (strip_span src start e) = drop 1 MARKER @ drop e src" .
  then show ?thesis by (simp only: matches_in_append [OF tl_MARKER_no_backslash])
qed


lemma strip_one_definition_progress:
  assumes m: "cmd_match (drop start src) = Some n"
  shows "\<exists>src' i'. strip_one_definition src start = Inr (src', i')
           \<and> matches_in (drop i' src') < matches_in (drop start src)"
proof -
  from m have "drop start src \<noteq> []" by (rule cmd_match_nonempty)
  then have lt: "start < length src" by simp
  from m have n: "0 < n" by (rule cmd_match_pos)
  have span: "\<And>e. start + 1 \<le> e \<Longrightarrow>
      matches_in (drop (start + 1) (strip_span src start e)) < matches_in (drop start src)"
    using matches_in_strip_span [OF lt] matches_in_after [OF m] by simp
  define i where "i = header_end src (start + n)"
  have i: "start + 1 \<le> i" unfolding i_def using header_end_ge [of "start + n" src] n by linarith
  show ?thesis
  proof (cases "should_strip_definition (slice src start (min (length src) (start + n + 400)))")
    case False
    then have "strip_one_definition src start = Inr (src, start + n)"
      by (simp add: strip_one_definition_def m Let_def)
    moreover have "matches_in (drop (start + n) src) < matches_in (drop start src)"
      using matches_in_after [OF m, of "start + n"] n by simp
    ultimately show ?thesis by blast
  next
    case w: True
    show ?thesis
    proof (cases "length src \<le> i")
      case True
      then have "strip_one_definition src start
          = Inr (strip_span src start (line_end_from src start), start + 1)"
        using w by (simp add: strip_one_definition_def m Let_def i_def)
      moreover have "start + 1 \<le> line_end_from src start"
        using line_end_from_gt [OF lt] by simp
      ultimately show ?thesis using span by blast
    next
      case False
      then have il: "i < length src" by simp
      then have ch: "char_at src i = Inr (src ! i)" by (simp add: char_at_def)
      show ?thesis
      proof (cases "src ! i = CHR ''{''")
        case True
        then have "strip_one_definition src start
            = Inr (strip_span src start (skip_balanced src i CHR ''{'' CHR ''}''), start + 1)"
          using w il ch by (simp add: strip_one_definition_def m Let_def i_def [symmetric])
        moreover have "start + 1 \<le> skip_balanced src i CHR ''{'' CHR ''}''"
          using skip_balanced_ge [of i src "CHR ''{''" "CHR ''}''"] i by linarith
        ultimately show ?thesis using span by blast
      next
        case nb: False
        show ?thesis
        proof (cases "find_char CHR ''{'' src i")
          case None
          then have "strip_one_definition src start
              = Inr (strip_span src start (line_end_from src i), start + 1)"
            using w il ch nb by (simp add: strip_one_definition_def m Let_def i_def [symmetric])
          moreover have "start + 1 \<le> line_end_from src i"
            using line_end_from_gt [OF il] i by linarith
          ultimately show ?thesis using span by blast
        next
          case (Some j)
          then have "strip_one_definition src start
              = Inr (strip_span src start (skip_balanced src j CHR ''{'' CHR ''}''), start + 1)"
            using w il ch nb by (simp add: strip_one_definition_def m Let_def i_def [symmetric])
          moreover have "start + 1 \<le> skip_balanced src j CHR ''{'' CHR ''}''"
            using skip_balanced_ge [of j src "CHR ''{''" "CHR ''}''"] i find_char_Some [OF Some]
            by linarith
          ultimately show ?thesis using span by blast
        qed
      qed
    qed
  qed
qed

lemma strip_loop_total: "\<exists>t. strip_loop src i = Some (Inr t)"
proof (induction "matches_in (drop i src)" arbitrary: src i rule: less_induct)
  case less
  show ?case
  proof (cases "cmd_search src i")
    case None
    then show ?thesis by (subst strip_loop.simps) simp
  next
    case (Some p)
    obtain a b where p: "p = (a, b)" by (cases p)
    from cmd_search_Some [of src i a b] Some p obtain n where
      ia: "i \<le> a" and m: "cmd_match (drop a src) = Some n" and b: "b = a + n" by auto
    from m have n: "0 < n" by (rule cmd_match_pos)
    have base: "matches_in (drop a src) \<le> matches_in (drop i src)"
      by (rule matches_in_drop_mono [OF ia])
    show ?thesis
    proof (cases "should_strip_definition (slice src a (min (length src) (a + 500)))")
      case False
      have "matches_in (drop b src) < matches_in (drop a src)"
        using matches_in_after [OF m, of b] b n by simp
      with base have "matches_in (drop b src) < matches_in (drop i src)" by linarith
      from less.hyps [OF this] obtain t where "strip_loop src b = Some (Inr t)" by blast
      then show ?thesis using Some p False by (subst strip_loop.simps) (simp add: Let_def)
    next
      case True
      from strip_one_definition_progress [OF m] obtain src' i' where
        s: "strip_one_definition src a = Inr (src', i')" and
        d: "matches_in (drop i' src') < matches_in (drop a src)" by blast
      from d base have "matches_in (drop i' src') < matches_in (drop i src)" by linarith
      from less.hyps [OF this] obtain t where "strip_loop src' i' = Some (Inr t)" by blast
      then show ?thesis using Some p True s by (subst strip_loop.simps) (simp add: Let_def)
    qed
  qed
qed


lemma find_char_None: "find_char c src p = None \<Longrightarrow> c \<notin> set (drop p src)"
proof -
  assume "find_char c src p = None"
  then have "dropWhile (\<lambda>x. x \<noteq> c) (drop p src) = []"
    by (simp add: find_char_def Let_def split: if_splits)
  then have "\<forall>x\<in>set (drop p src). x \<noteq> c" by (simp add: dropWhile_eq_Nil_conv)
  then show ?thesis by blast
qed

lemma find_char_absent: "c \<notin> set (drop p src) \<Longrightarrow> find_char c src p = None"
proof -
  assume "c \<notin> set (drop p src)"
  then have "\<forall>x\<in>set (drop p src). x \<noteq> c" by blast
  then have "dropWhile (\<lambda>x. x \<noteq> c) (drop p src) = []" by (simp add: dropWhile_eq_Nil_conv)
  then show ?thesis by (simp add: find_char_def)
qed

lemma find_char_found:
  assumes "find_char c src p = Some j"
  shows "p \<le> j \<and> j < length src \<and> src ! j = c \<and> c \<notin> set (slice src p j)"
proof -
  define xs where "xs = drop p src"
  define t where "t = takeWhile (\<lambda>x. x \<noteq> c) xs"
  define r where "r = dropWhile (\<lambda>x. x \<noteq> c) xs"
  from assms have r: "r \<noteq> []" and j: "j = length src - length r"
    by (auto simp: find_char_def Let_def r_def xs_def split: if_splits)
  have xs: "xs = t @ r" unfolding t_def r_def by simp
  have len: "length xs = length src - p" by (simp add: xs_def)
  from r have pos: "0 < length r" by simp
  from xs have lx: "length xs = length t + length r" by simp
  from lx len pos have p: "p < length src" by linarith
  from lx len j pos p have jt: "j = p + length t" by linarith
  have hd: "hd r = c" using r hd_dropWhile [of "\<lambda>x. x \<noteq> c" xs] by (simp add: r_def)
  have "src ! j = xs ! length t" using p jt by (simp add: xs_def)
  also have "\<dots> = r ! 0" by (simp add: xs nth_append)
  also have "\<dots> = c" using r hd by (simp add: hd_conv_nth)
  finally have c: "src ! j = c" .
  have "slice src p j = take (length t) xs" by (simp add: slice_def xs_def jt)
  also have "\<dots> = t" by (simp add: xs)
  finally have "slice src p j = t" .
  moreover have "c \<notin> set t" unfolding t_def by (auto dest: set_takeWhileD)
  ultimately have n: "c \<notin> set (slice src p j)" by simp
  from lx len jt pos p have "j < length src" by linarith
  with jt c n show ?thesis by simp
qed

lemma line_end_from_spec:
  assumes "p < length src"
  shows "p < line_end_from src p \<and> line_end_from src p \<le> length src
    \<and> CHR 0x0A \<notin> set (slice src p (line_end_from src p - 1))
    \<and> (src ! (line_end_from src p - 1) = CHR 0x0A
        \<or> (line_end_from src p = length src \<and> CHR 0x0A \<notin> set (drop p src)))"
proof (cases "find_char CHR 0x0A src p")
  case None
  then have e: "line_end_from src p = length src" by (simp add: line_end_from_def)
  from find_char_None [OF None] have n: "CHR 0x0A \<notin> set (drop p src)" .
  have "set (slice src p (length src - 1)) \<subseteq> set (drop p src)"
    unfolding slice_def by (rule set_take_subset)
  with n have "CHR 0x0A \<notin> set (slice src p (length src - 1))" by blast
  with e n assms show ?thesis by simp
next
  case (Some j)
  then have e: "line_end_from src p = j + 1" by (simp add: line_end_from_def)
  from find_char_found [OF Some] show ?thesis by (simp add: e)
qed

lemma line_end_from_same_line:
  assumes "start \<le> i" and "CHR 0x0A \<notin> set (slice src start i)"
  shows "line_end_from src i = line_end_from src start"
proof -
  have e: "drop (i - start) (drop start src) = drop i src" using assms(1) by simp
  have "take (i - start) (drop start src) @ drop (i - start) (drop start src) = drop start src"
    by (rule append_take_drop_id)
  then have d: "drop start src = slice src start i @ drop i src"
    unfolding slice_def e by (rule sym)
  have "dropWhile (\<lambda>x. x \<noteq> CHR 0x0A) (drop start src)
      = dropWhile (\<lambda>x. x \<noteq> CHR 0x0A) (drop i src)"
    by (subst d, rule dropWhile_append2) (use assms(2) in auto)
  then show ?thesis by (simp add: line_end_from_def find_char_def)
qed

lemma strip_one_definition_no_brace:
  assumes m: "cmd_match (drop start src) = Some n"
    and w: "should_strip_definition (slice src start (min (length src) (start + n + 400)))"
    and i: "i = header_end src (start + n)"
    and nb: "CHR ''{'' \<notin> set (drop i src)"
  shows "strip_one_definition src start
    = Inr (strip_span src start (line_end_from src (if length src \<le> i then start else i)),
           start + 1)"
proof (cases "length src \<le> i")
  case True
  then show ?thesis using w by (simp add: strip_one_definition_def m Let_def i)
next
  case False
  then have il: "i < length src" by simp
  then have ch: "char_at src i = Inr (src ! i)" by (simp add: char_at_def)
  from il have "src ! i \<in> set (drop i src)"
    by (metis Cons_nth_drop_Suc list.set_intros(1))
  with nb have ne: "src ! i \<noteq> CHR ''{''" by metis
  from find_char_absent [OF nb] have f: "find_char CHR ''{'' src i = None" .
  show ?thesis
    using w il ch ne f False by (simp add: strip_one_definition_def m Let_def i [symmetric])
qed

text \<open>
  C5, as the code has it. When the text after the header does not start with an opening
  brace, the stripper looks for the next opening brace in all the text that follows, not
  only on the starting line: in \<^verbatim>\<open>\def\resumeX foo\<close> followed by the lines \<^verbatim>\<open>{bar}\<close> and
  \<^verbatim>\<open>qux\<close> the starting line has no brace, and the stripped span runs through \<^verbatim>\<open>{bar}\<close>
  where the claim strips the first line only. And when no brace follows at all, the span
  runs to the end of the line on which the header scan stopped, which is the third line
  for \<^verbatim>\<open>\newcommand{\resumeX}\<close>, \<^verbatim>\<open>[2]\<close>, \<^verbatim>\<open>foo bar\<close>, \<^verbatim>\<open>rest\<close>.
\<close>

theorem strip_one_definition_crosses_lines:
  "CHR ''{'' \<notin> set (takeWhile (\<lambda>c. c \<noteq> CHR 0x0A) (BSL # ''def'' @ BSL # ''resumeX foo\<newline>{bar}\<newline>qux''))
   \<and> strip_one_definition (BSL # ''def'' @ BSL # ''resumeX foo\<newline>{bar}\<newline>qux'') 0
       = Inr (''% (stripped macro definition)\<newline>\<newline>qux'', 1)
   \<and> strip_span (BSL # ''def'' @ BSL # ''resumeX foo\<newline>{bar}\<newline>qux'') 0
        (line_end_from (BSL # ''def'' @ BSL # ''resumeX foo\<newline>{bar}\<newline>qux'') 0)
       = ''% (stripped macro definition)\<newline>{bar}\<newline>qux''
   \<and> CHR ''{'' \<notin> set (drop (header_end (BSL # ''newcommand{'' @ BSL # ''resumeX}\<newline>[2]\<newline>foo bar\<newline>rest'') 11)
        (BSL # ''newcommand{'' @ BSL # ''resumeX}\<newline>[2]\<newline>foo bar\<newline>rest''))
   \<and> strip_one_definition (BSL # ''newcommand{'' @ BSL # ''resumeX}\<newline>[2]\<newline>foo bar\<newline>rest'') 0
       = Inr (''% (stripped macro definition)\<newline>rest'', 1)"
  by code_simp

text \<open>
  C5, amended. For every structural macro definition matched at \<open>start\<close> whose header scan
  (name, optional argument count, white space) stops at \<open>i\<close> with no opening brace in the
  text from \<open>i\<close> on: the text from the keyword to the end of a line is replaced by the
  marker comment line, and that line is the definition's starting line whenever the scan
  stops at the end of the text or has not left the starting line. The end of the starting
  line is just after its first line feed, or the end of the text when no line feed follows.
\<close>

theorem strip_one_definition_no_body:
  assumes "cmd_match (drop start src) = Some n"
    and "should_strip_definition (slice src start (min (length src) (start + n + 400)))"
    and "i = header_end src (start + n)"
    and "CHR ''{'' \<notin> set (drop i src)"
  shows "strip_one_definition src start
      = Inr (take start src @ ''% (stripped macro definition)\<newline>''
               @ drop (line_end_from src (if length src \<le> i then start else i)) src,
             start + 1)
    \<and> (length src \<le> i \<or> CHR 0x0A \<notin> set (slice src start i) \<longrightarrow>
         strip_one_definition src start
           = Inr (take start src @ ''% (stripped macro definition)\<newline>''
                    @ drop (line_end_from src start) src,
                  start + 1))
    \<and> start < line_end_from src start \<and> line_end_from src start \<le> length src
    \<and> CHR 0x0A \<notin> set (slice src start (line_end_from src start - 1))
    \<and> (src ! (line_end_from src start - 1) = CHR 0x0A
        \<or> (line_end_from src start = length src \<and> CHR 0x0A \<notin> set (drop start src)))"
proof -
  from assms(1) have "drop start src \<noteq> []" by (rule cmd_match_nonempty)
  then have lt: "start < length src" by simp
  from assms(1) have n: "0 < n" by (rule cmd_match_pos)
  have si: "start \<le> i" unfolding assms(3) using header_end_ge [of "start + n" src] by linarith
  note r = strip_one_definition_no_brace [OF assms, unfolded strip_span_def MARKER_def]
  have 1: "strip_one_definition src start
      = Inr (take start src @ ''% (stripped macro definition)\<newline>''
               @ drop (line_end_from src (if length src \<le> i then start else i)) src,
             start + 1)"
    by (rule r)
  have 2: "length src \<le> i \<or> CHR 0x0A \<notin> set (slice src start i) \<longrightarrow>
         strip_one_definition src start
           = Inr (take start src @ ''% (stripped macro definition)\<newline>''
                    @ drop (line_end_from src start) src,
                  start + 1)"
  proof
    assume a: "length src \<le> i \<or> CHR 0x0A \<notin> set (slice src start i)"
    show "strip_one_definition src start
           = Inr (take start src @ ''% (stripped macro definition)\<newline>''
                    @ drop (line_end_from src start) src,
                  start + 1)"
    proof (cases "length src \<le> i")
      case True
      with r show ?thesis by simp
    next
      case False
      with a have "CHR 0x0A \<notin> set (slice src start i)" by blast
      from line_end_from_same_line [OF si this] r False show ?thesis by simp
    qed
  qed
  note 3 = line_end_from_spec [OF lt]
  from 1 2 3 show ?thesis by blast
qed

theorem strip_one_definition_no_body_witness:
  "strip_one_definition (''x'' @ BSL # ''def'' @ BSL # ''resumeX foo\<newline>bar'') 1
   = Inr (''x% (stripped macro definition)\<newline>bar'', 2)"
proof -
  define src where "src = ''x'' @ BSL # ''def'' @ BSL # ''resumeX foo\<newline>bar''"
  have m: "cmd_match (drop 1 src) = Some 4" unfolding src_def by code_simp
  have w: "should_strip_definition (slice src 1 (min (length src) (1 + 4 + 400)))"
    unfolding src_def by code_simp
  have nb: "CHR ''{'' \<notin> set (drop (header_end src (1 + 4)) src)"
    unfolding src_def by code_simp
  have e: "take 1 src @ ''% (stripped macro definition)\<newline>''
        @ drop (line_end_from src (if length src \<le> header_end src (1 + 4) then 1
                                    else header_end src (1 + 4))) src
      = ''x% (stripped macro definition)\<newline>bar''"
    unfolding src_def by code_simp
  from strip_one_definition_no_body [OF m w refl nb]
  have "strip_one_definition src 1
      = Inr (take 1 src @ ''% (stripped macro definition)\<newline>''
        @ drop (line_end_from src (if length src \<le> header_end src (1 + 4) then 1
                                    else header_end src (1 + 4))) src, 1 + 1)"
    by (rule conjunct1)
  then have "strip_one_definition src 1 = Inr (''x% (stripped macro definition)\<newline>bar'', 2)"
    unfolding e by simp
  then show ?thesis unfolding src_def .
qed

text \<open>
  C9. Every stage returns: for every text the loop of \<open>strip_macro_definitions\<close> ends and
  gives a text, no character read of \<open>strip_one_definition\<close> is out of range, the loop of
  \<open>ensure_list_items\<close> ends, and the chain of all stages of \<^verbatim>\<open>main\<close> (the guard rewriter,
  the stripper, the invocation rewriter, the balancer, the guarantor and the brace auditor
  with or without the automatic repair) gives its result. The other stages are total
  functions whose loops run over the lines or the characters of a finite text.
\<close>

theorem stages_total:
  "(\<exists>t. strip_macro_definitions s = Some (Inr t))
   \<and> (\<exists>r. strip_one_definition src start = Inr r)
   \<and> (\<exists>t. ensure_list_items s = Some t)
   \<and> (\<exists>r. normalize s auto_fix = Some (Inr r))"
proof -
  have 1: "\<exists>t. strip_macro_definitions s = Some (Inr t)"
    unfolding strip_macro_definitions_def by (rule strip_loop_total)
  have 2: "\<exists>r. strip_one_definition src start = Inr r"
  proof (cases "cmd_match (drop start src)")
    case None
    then show ?thesis by (simp add: strip_one_definition_def)
  next
    case (Some n)
    from strip_one_definition_progress [OF Some] show ?thesis by blast
  qed
  have 3: "\<exists>t. ensure_list_items s = Some t" by (simp add: ensure_list_items_result)
  have 4: "\<exists>r. normalize s auto_fix = Some (Inr r)"
  proof -
    obtain t where t: "strip_macro_definitions (guard_glyphtounicode s) = Some (Inr t)"
      unfolding strip_macro_definitions_def using strip_loop_total by blast
    show ?thesis
      unfolding normalize_def Let_def t
      by (simp add: ensure_list_items_result split_def)
  qed
  show ?thesis by (intro conjI) (rule 1 2 3 4)+
qed

theorem stages_total_witness:
  "strip_macro_definitions (''a'' @ BSL # ''def'' @ BSL # ''resumeX{b}c'' @ BSL # ''def'' @ BSL # ''foo{x}'')
     = Some (Inr (''a% (stripped macro definition)\<newline>c'' @ BSL # ''def'' @ BSL # ''foo{x}''))
   \<and> (\<exists>r. normalize (''a'' @ BSL # ''def'' @ BSL # ''resumeX{b}c'' @ BSL # ''def'' @ BSL # ''foo{x}'') True
           = Some (Inr r))"
proof -
  have e: "strip_macro_definitions (''a'' @ BSL # ''def'' @ BSL # ''resumeX{b}c'' @ BSL # ''def'' @ BSL # ''foo{x}'')
     = Some (Inr (''a% (stripped macro definition)\<newline>c'' @ BSL # ''def'' @ BSL # ''foo{x}''))"
    by code_simp
  from stages_total [of "''a'' @ BSL # ''def'' @ BSL # ''resumeX{b}c'' @ BSL # ''def'' @ BSL # ''foo{x}''"
      "[]" 0 True] e
  show ?thesis by blast
qed

end
